theory Spec2Isabelle
  imports Main "HOL-Library.Sublist" "HOL-Library.Log_Nat" "HOL-Library.Char_ord"
    "HOL-Library.List_Lexorder"
begin

section \<open>Strings, characters and numbers of the host language\<close>

text \<open>
  Strings are lists of characters. A character of the model is one code unit below 256
  (the Latin-1 range); text outside that range is not modelled. In that range the class
  \<open>\s\<close> of the regular expressions (and the characters \<open>trim\<close> strips) are the five
  control characters tab, line feed, vertical tab, form feed, carriage return, the
  space, and the no-break space; a line terminator, which \<open>.\<close> does not match, is a
  line feed or a carriage return.
\<close>

definition is_digit :: "char \<Rightarrow> bool" where
  "is_digit c \<longleftrightarrow> c \<in> set ''0123456789''"

definition is_space :: "char \<Rightarrow> bool" where
  "is_space c \<longleftrightarrow> c \<in> set [CHR 0x09, CHR 0x0A, CHR 0x0B, CHR 0x0C, CHR 0x0D, CHR '' '', CHR 0xA0]"

definition is_line_term :: "char \<Rightarrow> bool" where
  "is_line_term c \<longleftrightarrow> c \<in> set [CHR 0x0A, CHR 0x0D]"

text \<open>\<open>String.prototype.trim\<close>.\<close>

definition trim :: "string \<Rightarrow> string" where
  "trim s = rev (dropWhile is_space (rev (dropWhile is_space s)))"

subsection \<open>Decimal digits\<close>

text \<open>The digit of a number below ten, and the number that a digit stands for.\<close>

definition digit_char :: "nat \<Rightarrow> char" where
  "digit_char d = ''0123456789'' ! d"

definition digit_val :: "char \<Rightarrow> nat" where
  "digit_val c = length (takeWhile (\<lambda>d. d \<noteq> c) ''0123456789'')"

text \<open>The decimal numeral of a natural number, without leading zeros.\<close>

function dec :: "nat \<Rightarrow> string" where
  "dec n = (if n < 10 then [digit_char n] else dec (n div 10) @ [digit_char (n mod 10)])"
  by pat_completeness auto
termination
  by (relation "measure id") auto

text \<open>The value of a string of decimal digits, read from the left.\<close>

definition digits_val :: "string \<Rightarrow> nat" where
  "digits_val ds = foldl (\<lambda>a c. 10 * a + digit_val c) 0 ds"

subsection \<open>Numbers\<close>

text \<open>
  A number of the host language is an IEEE 754 double. The numbers that arise in the
  template engine are the results of \<open>parseInt\<close> on digits and of adding and
  subtracting such results: doubles with an integer value, the two infinities, and
  NaN (infinity minus infinity). \<open>Fin n\<close> is the double whose value is the integer
  \<open>n\<close>; negative zero does not arise and is not modelled.
\<close>

datatype jsnum = Fin int | PosInf | NegInf | NaN

text \<open>
  The double nearest to an integer, ties to the even significand. Below \<open>2^53\<close> every
  integer is a double. From there on a double has 53 significant bits: with \<open>e\<close> the
  number of bits beyond 53, the integer is rounded to a multiple of \<open>2^e\<close>, and a
  rounded magnitude of \<open>2^1024\<close> or more is infinite.
\<close>

definition round_double :: "int \<Rightarrow> jsnum" where
  "round_double n =
     (let a = nat \<bar>n\<bar> in
      if a < 2 ^ 53 then Fin n
      else
        let e = floorlog 2 a - 53;
            q = a div 2 ^ e;
            r = a mod 2 ^ e;
            h = 2 ^ (e - 1);
            q' = (if h < r \<or> (r = h \<and> odd q) then q + 1 else q);
            v = q' * 2 ^ e
        in if 2 ^ 1024 \<le> v then (if n < 0 then NegInf else PosInf)
           else Fin (if n < 0 then - int v else int v))"

text \<open>Addition and subtraction of doubles: the exact result, rounded.\<close>

fun js_add :: "jsnum \<Rightarrow> jsnum \<Rightarrow> jsnum" where
  "js_add (Fin a) (Fin b) = round_double (a + b)"
| "js_add NaN _ = NaN"
| "js_add _ NaN = NaN"
| "js_add PosInf NegInf = NaN"
| "js_add NegInf PosInf = NaN"
| "js_add PosInf _ = PosInf"
| "js_add _ PosInf = PosInf"
| "js_add NegInf _ = NegInf"
| "js_add _ NegInf = NegInf"

fun js_neg :: "jsnum \<Rightarrow> jsnum" where
  "js_neg (Fin a) = Fin (- a)"
| "js_neg PosInf = NegInf"
| "js_neg NegInf = PosInf"
| "js_neg NaN = NaN"

definition js_sub :: "jsnum \<Rightarrow> jsnum \<Rightarrow> jsnum" where
  "js_sub x y = js_add x (js_neg y)"

text \<open>
  \<open>parseInt(s, 10)\<close>: leading white space is skipped, a sign is read, then the longest
  run of decimal digits; with no digit the result is NaN. \<open>parseInt(s)\<close> without a
  radix reads the same number from a string of decimal digits, which is all the
  regular expressions of the template engine capture.
\<close>

definition parseInt :: "string \<Rightarrow> jsnum" where
  "parseInt s =
     (let t = dropWhile is_space s;
          neg = (case t of c # _ \<Rightarrow> c = CHR ''-'' | [] \<Rightarrow> False);
          u = (case t of c # r \<Rightarrow> if c = CHR ''-'' \<or> c = CHR ''+'' then r else t | [] \<Rightarrow> t);
          ds = takeWhile is_digit u
      in if ds = [] then NaN
         else round_double (if neg then - int (digits_val ds) else int (digits_val ds)))"

text \<open>
  The conversion of a number to a string. For a finite number the digits are the
  shortest decimal numeral that still reads back as the same double, followed by
  zeros: \<open>shortest_from j a\<close> looks for a multiple of \<open>10^j\<close> that rounds to \<open>a\<close>,
  from the largest \<open>j\<close> downwards, and takes the nearer of the two multiples around
  \<open>a\<close>. A number of 22 digits or more is written with an exponent.
\<close>

fun shortest_from :: "nat \<Rightarrow> nat \<Rightarrow> nat" where
  "shortest_from 0 a = a"
| "shortest_from (Suc j) a =
     (let p = 10 ^ Suc j;
          lo = (a div p) * p;
          hi = lo + p;
          oklo = (0 < lo \<and> round_double (int lo) = Fin (int a));
          okhi = (round_double (int hi) = Fin (int a))
      in if oklo \<and> okhi then (if a - lo \<le> hi - a then lo else hi)
         else if oklo then lo
         else if okhi then hi
         else shortest_from j a)"

definition strip_zeros :: "string \<Rightarrow> string" where
  "strip_zeros ds = rev (dropWhile (\<lambda>c. c = CHR ''0'') (rev ds))"

definition nat_to_string :: "nat \<Rightarrow> string" where
  "nat_to_string a =
     (if a = 0 then ''0''
      else
        let ds = dec (shortest_from (length (dec a)) a) in
        if length ds \<le> 21 then ds
        else
          (case strip_zeros ds of
             [] \<Rightarrow> []
           | d # rest \<Rightarrow> if rest = [] then [d] else d # CHR ''.'' # rest)
            @ ''e+'' @ dec (length ds - 1))"

fun js_to_string :: "jsnum \<Rightarrow> string" where
  "js_to_string (Fin n) = (if n < 0 then CHR ''-'' # nat_to_string (nat (- n)) else nat_to_string (nat n))"
| "js_to_string PosInf = ''Infinity''"
| "js_to_string NegInf = ''-Infinity''"
| "js_to_string NaN = ''NaN''"

text \<open>\<open>Number.isFinite\<close>.\<close>

fun js_isFinite :: "jsnum \<Rightarrow> bool" where
  "js_isFinite (Fin _) = True"
| "js_isFinite _ = False"

section \<open>The template engine (index.js, the replace chains of doTask)\<close>

subsection \<open>The surroundings a run reads\<close>

text \<open>
  A field of a task object: a string, \<open>null\<close> (a column of the table \<open>tasks\<close> that
  is NULL, or a \<open>null\<close> in a configuration file), or \<open>undefined\<close> (a key that a
  configuration file leaves out). A configuration file whose fields are numbers,
  booleans, arrays or objects is outside the model.
\<close>

datatype field = Str string | Null | Undefined

text \<open>
  A request as \<open>doTask\<close> hands it to the HTTP library: \<open>http.get(reqd, ...)\<close>, or
  \<open>http.request\<close> with the method POST, the host and path parsed from \<open>reqd\<close>, the
  header \<open>content-type\<close> set to the field \<open>postType\<close> of the task, and the expanded
  \<open>postData\<close> as the body (whose length in bytes is the content length). A GET
  request has no such header and no body.
\<close>

datatype http_method = GET | POST

record request =
  rq_method :: http_method
  rq_url :: string
  rq_contentType :: field
  rq_body :: string

text \<open>
  The clock and the upload directory are parameters of a run. \<open>e_month\<close> is what
  \<open>getMonth\<close> returns, counted from 0. The three readers of the upload directory,
  \<open>fileById\<close>, \<open>getLine\<close> and \<open>getWord\<close>, are taken as they are: functions of the
  two captured strings that return a string and never throw. \<open>e_now\<close> is
  \<open>Date.now()\<close>. \<open>e_send_error\<close> tells whether the HTTP library throws when it is
  handed a request (an invalid URL or header value), and with which message.
\<close>

record env =
  e_hours :: nat
  e_minutes :: nat
  e_day :: nat
  e_month :: nat
  e_year :: nat
  e_now :: nat
  fileById :: "string \<Rightarrow> string \<Rightarrow> string"
  getLine :: "string \<Rightarrow> string \<Rightarrow> string"
  getWord :: "string \<Rightarrow> string \<Rightarrow> string"
  e_send_error :: "request \<Rightarrow> string option"

text \<open>\<open>s.padStart(2, '0')\<close>.\<close>

definition padStart2 :: "string \<Rightarrow> string" where
  "padStart2 s = replicate (2 - length s) (CHR ''0'') @ s"

definition getHour :: "env \<Rightarrow> string" where
  "getHour e = padStart2 (dec (e_hours e)) @ ''_'' @ padStart2 (dec (e_minutes e))"

definition getDate :: "env \<Rightarrow> string" where
  "getDate e = padStart2 (dec (e_day e)) @ ''_'' @ padStart2 (dec (e_month e + 1))
                 @ ''_'' @ dec (e_year e)"

subsection \<open>Matching\<close>

text \<open>
  A matcher tries one regular expression at the start of a string: it returns the two
  captured groups (the second is empty for an expression with one group, both for a
  literal pattern) and the text after the match.
\<close>

type_synonym groups = "string \<times> string"
type_synonym matcher = "string \<Rightarrow> (groups \<times> string) option"

fun strip_prefix :: "string \<Rightarrow> string \<Rightarrow> string option" where
  "strip_prefix [] s = Some s"
| "strip_prefix (p # ps) [] = None"
| "strip_prefix (p # ps) (c # cs) = (if p = c then strip_prefix ps cs else None)"

text \<open>A literal pattern, as in \<open>replace('~hour~', getHour())\<close>. (The replacement is a
  string there, in which \<open>$\<close> would be special; the clock strings have none.)\<close>

definition m_literal :: "string \<Rightarrow> matcher" where
  "m_literal p s = (case strip_prefix p s of None \<Rightarrow> None | Some rest \<Rightarrow> Some (([], []), rest))"

text \<open>
  \<open>/~inc\$(\d+)~/\<close> and \<open>/~dec\$(\d+)~/\<close>: the keyword, the longest run of digits, not
  empty, and the closing tilde. A shorter run of digits cannot be followed by a tilde,
  so the longest one is the only candidate.
\<close>

definition m_counter :: "string \<Rightarrow> matcher" where
  "m_counter kw s =
     (case strip_prefix kw s of None \<Rightarrow> None
      | Some r \<Rightarrow>
          if takeWhile is_digit r = [] then None
          else (case strip_prefix ''~'' (dropWhile is_digit r) of None \<Rightarrow> None
                | Some rest \<Rightarrow> Some ((takeWhile is_digit r, []), rest)))"

text \<open>\<open>/~{([^}]*)}~/\<close>: the group is everything up to the first closing brace.\<close>

definition m_brace :: matcher where
  "m_brace s =
     (case strip_prefix ''~{'' s of None \<Rightarrow> None
      | Some r \<Rightarrow>
          (case strip_prefix ''}~'' (dropWhile (\<lambda>c. c \<noteq> CHR ''}'') r) of None \<Rightarrow> None
           | Some rest \<Rightarrow> Some ((takeWhile (\<lambda>c. c \<noteq> CHR ''}'') r, []), rest)))"

text \<open>
  \<open>/~(\d+)\s*\+\s*(\d+)~/\<close> and the same with \<open>\-\<close>: digits, white space, the
  operator, white space, digits, tilde. The classes that follow one another are
  disjoint, so each run is the longest one.
\<close>

definition m_arith :: "char \<Rightarrow> matcher" where
  "m_arith opr s =
     (case strip_prefix ''~'' s of None \<Rightarrow> None
      | Some r \<Rightarrow>
          if takeWhile is_digit r = [] then None
          else (case strip_prefix [opr] (dropWhile is_space (dropWhile is_digit r)) of None \<Rightarrow> None
                | Some r2 \<Rightarrow>
                    if takeWhile is_digit (dropWhile is_space r2) = [] then None
                    else (case strip_prefix ''~'' (dropWhile is_digit (dropWhile is_space r2)) of
                            None \<Rightarrow> None
                          | Some rest \<Rightarrow>
                              Some ((takeWhile is_digit r, takeWhile is_digit (dropWhile is_space r2)),
                                    rest))))"

text \<open>\<open>\s+(\d+)~\<close>, the common end of the three file patterns.\<close>

definition m_index :: "string \<Rightarrow> (string \<times> string) option" where
  "m_index s =
     (if takeWhile is_space s = [] then None
      else if takeWhile is_digit (dropWhile is_space s) = [] then None
      else (case strip_prefix ''~'' (dropWhile is_digit (dropWhile is_space s)) of None \<Rightarrow> None
            | Some rest \<Rightarrow> Some (takeWhile is_digit (dropWhile is_space s), rest)))"

text \<open>
  \<open>/~files\s+(\S+)\s+(\d+)~/\<close>: white space, the longest run of other characters, then
  the index. Here too each run is the longest one.
\<close>

definition m_files :: matcher where
  "m_files s =
     (case strip_prefix ''~files'' s of None \<Rightarrow> None
      | Some r \<Rightarrow>
          if takeWhile is_space r = [] then None
          else if takeWhile (\<lambda>c. \<not> is_space c) (dropWhile is_space r) = [] then None
          else (case m_index (dropWhile (\<lambda>c. \<not> is_space c) (dropWhile is_space r)) of None \<Rightarrow> None
                | Some (idx, rest) \<Rightarrow>
                    Some ((takeWhile (\<lambda>c. \<not> is_space c) (dropWhile is_space r), idx), rest)))"

text \<open>
  \<open>/~lines\s+(.+?)\s+(\d+)~/\<close> and \<open>/~words\s+(.+?)\s+(\d+)~/\<close>. The group \<open>.+?\<close> is
  lazy: it takes one character that is no line terminator, then tries the index, and
  takes one character more each time the index does not match (\<open>lazy_group\<close>). The
  white space before the group is greedy, but the group may begin with white space:
  when the group fails after the longest run of white space, the expression is tried
  again after one white space character less, down to one (\<open>after_spaces\<close>).
\<close>

fun lazy_group :: "string \<Rightarrow> string \<Rightarrow> (groups \<times> string) option" where
  "lazy_group acc [] = None"
| "lazy_group acc (c # cs) =
     (if is_line_term c then None
      else (case m_index cs of
              Some (idx, rest) \<Rightarrow> Some ((acc @ [c], idx), rest)
            | None \<Rightarrow> lazy_group (acc @ [c]) cs))"

fun after_spaces :: "nat \<Rightarrow> string \<Rightarrow> (groups \<times> string) option" where
  "after_spaces 0 r = None"
| "after_spaces (Suc k) r =
     (case lazy_group [] (drop (Suc k) r) of
        Some m \<Rightarrow> Some m
      | None \<Rightarrow> after_spaces k r)"

definition m_lazy :: "string \<Rightarrow> matcher" where
  "m_lazy kw s =
     (case strip_prefix kw s of None \<Rightarrow> None
      | Some r \<Rightarrow> after_spaces (length (takeWhile is_space r)) r)"

subsection \<open>Replacing\<close>

text \<open>
  \<open>s.replace(pattern, f)\<close> for a literal pattern or an expression without the flag
  \<open>g\<close>: the leftmost match is replaced by what the callback returns for its groups, and
  the text after it is kept as it is.
\<close>

fun replace_first :: "matcher \<Rightarrow> (groups \<Rightarrow> string) \<Rightarrow> string \<Rightarrow> string" where
  "replace_first m f [] = []"
| "replace_first m f (c # cs) =
     (case m (c # cs) of
        Some (g, rest) \<Rightarrow> f g @ rest
      | None \<Rightarrow> c # replace_first m f cs)"

text \<open>
  With the flag \<open>g\<close>: after a match the search goes on behind it, and what was put in is
  not searched again. (A match that consumes nothing would make the search step one
  character ahead; none of the expressions here matches the empty string.)
\<close>

function replace_all :: "matcher \<Rightarrow> (groups \<Rightarrow> string) \<Rightarrow> string \<Rightarrow> string" where
  "replace_all m f [] = []"
| "replace_all m f (c # cs) =
     (case m (c # cs) of
        Some (g, rest) \<Rightarrow>
          if length rest < length (c # cs) then f g @ replace_all m f rest
          else f g @ c # replace_all m f cs
      | None \<Rightarrow> c # replace_all m f cs)"
  by pat_completeness auto
termination
  by (relation "measure (\<lambda>(m, f, s). length s)") auto

subsection \<open>The placeholders\<close>

text \<open>\<open>contents.split(' ')\<close> and \<open>parts.join(' ')\<close>.\<close>

fun split_space :: "string \<Rightarrow> string list" where
  "split_space [] = [[]]"
| "split_space (c # cs) =
     (if c = CHR '' '' then [] # split_space cs
      else (case split_space cs of w # ws \<Rightarrow> (c # w) # ws | [] \<Rightarrow> [[c]]))"

fun join_space :: "string list \<Rightarrow> string" where
  "join_space [] = []"
| "join_space [w] = w"
| "join_space (w # ws) = w @ CHR '' '' # join_space ws"

text \<open>
  The ten kinds of placeholder, in the order in which the evaluation chain of \<open>doTask\<close>
  replaces them.
\<close>

datatype kind = KHour | KDate | KInc | KDec | KBrace | KPlus | KMinus | KFiles | KLines | KWords

fun pattern :: "kind \<Rightarrow> matcher" where
  "pattern KHour = m_literal ''~hour~''"
| "pattern KDate = m_literal ''~date~''"
| "pattern KInc = m_counter ''~inc$''"
| "pattern KDec = m_counter ''~dec$''"
| "pattern KBrace = m_brace"
| "pattern KPlus = m_arith (CHR ''+'')"
| "pattern KMinus = m_arith (CHR ''-'')"
| "pattern KFiles = m_files"
| "pattern KLines = m_lazy ''~lines''"
| "pattern KWords = m_lazy ''~words''"

text \<open>Only the bracket list is replaced with the flag \<open>g\<close>.\<close>

fun global :: "kind \<Rightarrow> bool" where
  "global KBrace = True"
| "global _ = False"

text \<open>
  The callbacks of the evaluation chain: what a placeholder is worth in this run. A
  callback that returns a number has it converted to a string by \<open>replace\<close>.
\<close>

fun value_cb :: "env \<Rightarrow> kind \<Rightarrow> groups \<Rightarrow> string" where
  "value_cb e KHour (co1, co2) = getHour e"
| "value_cb e KDate (co1, co2) = getDate e"
| "value_cb e KInc (p, _) = js_to_string (parseInt p)"
| "value_cb e KDec (p, _) = js_to_string (parseInt p)"
| "value_cb e KBrace (contents, _) = hd (split_space contents)"
| "value_cb e KPlus (co1, co2) = co1"
| "value_cb e KMinus (co1, co2) = co1"
| "value_cb e KFiles (co1, co2) = fileById e co1 co2"
| "value_cb e KLines (co1, co2) = getLine e co1 co2"
| "value_cb e KWords (co1, co2) = getWord e co1 co2"

text \<open>
  The callbacks of the advance chain: the placeholder as it is stored for the next
  run. In the bracket list, \<open>slice(0, 1)\<close> is an array of one string, which the
  template literal converts to that string. The chain has no step for the hour and the
  date: for these two kinds the function is never called and returns the placeholder.
\<close>

fun next_cb :: "kind \<Rightarrow> groups \<Rightarrow> string" where
  "next_cb KInc (p, _) = ''~inc$'' @ js_to_string (js_add (parseInt p) (Fin 1)) @ ''~''"
| "next_cb KDec (p, _) = ''~dec$'' @ js_to_string (js_sub (parseInt p) (Fin 1)) @ ''~''"
| "next_cb KBrace (contents, _) =
     ''~{'' @ join_space (drop 1 (split_space contents)) @ '' ''
       @ concat (take 1 (split_space contents)) @ ''}~''"
| "next_cb KPlus (co1, co2) =
     ''~'' @ js_to_string (js_add (parseInt co1) (parseInt co2)) @ '' + '' @ co2 @ ''~''"
| "next_cb KMinus (co1, co2) =
     ''~'' @ js_to_string (js_sub (parseInt co1) (parseInt co2)) @ '' - '' @ co2 @ ''~''"
| "next_cb KFiles (co1, co2) =
     ''~files '' @ co1 @ '' '' @ js_to_string (js_add (parseInt co2) (Fin 1)) @ ''~''"
| "next_cb KLines (co1, co2) =
     ''~lines '' @ co1 @ '' '' @ js_to_string (js_add (parseInt co2) (Fin 1)) @ ''~''"
| "next_cb KWords (co1, co2) =
     ''~words '' @ co1 @ '' '' @ js_to_string (js_add (parseInt co2) (Fin 1)) @ ''~''"
| "next_cb KHour (co1, co2) = ''~hour~''"
| "next_cb KDate (co1, co2) = ''~date~''"

text \<open>One \<open>.replace\<close> call of a chain.\<close>

definition substitute :: "kind \<Rightarrow> (groups \<Rightarrow> string) \<Rightarrow> string \<Rightarrow> string" where
  "substitute k f s =
     (if global k then replace_all (pattern k) f s else replace_first (pattern k) f s)"

text \<open>
  The two chains of \<open>doTask\<close>, each applied to the stored template: the value of this
  run, and the template stored for the next run.
\<close>

definition expand :: "env \<Rightarrow> string \<Rightarrow> string" where
  "expand e template =
     foldl (\<lambda>s k. substitute k (value_cb e k) s) template
       [KHour, KDate, KInc, KDec, KBrace, KPlus, KMinus, KFiles, KLines, KWords]"

definition advance :: "string \<Rightarrow> string" where
  "advance template =
     foldl (\<lambda>s k. substitute k (next_cb k) s) template
       [KInc, KDec, KBrace, KPlus, KMinus, KFiles, KLines, KWords]"

subsection \<open>Templates with separated placeholders\<close>

text \<open>
  The vocabulary in which the properties of the template engine are stated. A text is
  plain when it has no tilde. A numeral is a string of decimal digits, not empty.
\<close>

definition plain :: "string \<Rightarrow> bool" where
  "plain s \<longleftrightarrow> CHR ''~'' \<notin> set s"

definition numeral_str :: "string \<Rightarrow> bool" where
  "numeral_str ds \<longleftrightarrow> ds \<noteq> [] \<and> list_all is_digit ds"

text \<open>
  The placeholder of a kind, as it is written in a template, from the groups that the
  expression of its kind captures in it.
\<close>

fun placeholder :: "kind \<Rightarrow> groups \<Rightarrow> string" where
  "placeholder KHour _ = ''~hour~''"
| "placeholder KDate _ = ''~date~''"
| "placeholder KInc (p, _) = ''~inc$'' @ p @ ''~''"
| "placeholder KDec (p, _) = ''~dec$'' @ p @ ''~''"
| "placeholder KBrace (contents, _) = ''~{'' @ contents @ ''}~''"
| "placeholder KPlus (co1, co2) = ''~'' @ co1 @ '' + '' @ co2 @ ''~''"
| "placeholder KMinus (co1, co2) = ''~'' @ co1 @ '' - '' @ co2 @ ''~''"
| "placeholder KFiles (co1, co2) = ''~files '' @ co1 @ '' '' @ co2 @ ''~''"
| "placeholder KLines (co1, co2) = ''~lines '' @ co1 @ '' '' @ co2 @ ''~''"
| "placeholder KWords (co1, co2) = ''~words '' @ co1 @ '' '' @ co2 @ ''~''"

text \<open>
  The groups with which \<open>placeholder\<close> writes a placeholder that its expression
  matches with these very groups: counters and indices are numerals, the operands of a
  sum or difference are numerals in the range where doubles are exact, a bracket list
  has no closing brace and no tilde inside, and a file name is not empty and has
  neither white space nor a tilde.
\<close>

definition file_name :: "string \<Rightarrow> bool" where
  "file_name f \<longleftrightarrow> f \<noteq> [] \<and> plain f \<and> \<not> list_ex is_space f"

fun well_formed :: "kind \<Rightarrow> groups \<Rightarrow> bool" where
  "well_formed KHour (co1, co2) \<longleftrightarrow> co1 = [] \<and> co2 = []"
| "well_formed KDate (co1, co2) \<longleftrightarrow> co1 = [] \<and> co2 = []"
| "well_formed KInc (p, co2) \<longleftrightarrow> numeral_str p \<and> co2 = []"
| "well_formed KDec (p, co2) \<longleftrightarrow> numeral_str p \<and> co2 = []"
| "well_formed KBrace (contents, co2) \<longleftrightarrow> plain contents \<and> CHR ''}'' \<notin> set contents \<and> co2 = []"
| "well_formed KPlus (co1, co2) \<longleftrightarrow>
     numeral_str co1 \<and> numeral_str co2 \<and> digits_val co1 + digits_val co2 < 2 ^ 53"
| "well_formed KMinus (co1, co2) \<longleftrightarrow>
     numeral_str co1 \<and> numeral_str co2 \<and> digits_val co1 < 2 ^ 53 \<and> digits_val co2 < 2 ^ 53"
| "well_formed KFiles (co1, co2) \<longleftrightarrow> file_name co1 \<and> numeral_str co2"
| "well_formed KLines (co1, co2) \<longleftrightarrow> file_name co1 \<and> numeral_str co2"
| "well_formed KWords (co1, co2) \<longleftrightarrow> file_name co1 \<and> numeral_str co2"

text \<open>A matcher finds nothing in a string: it fails at every position.\<close>

definition nomatch :: "matcher \<Rightarrow> string \<Rightarrow> bool" where
  "nomatch m s \<longleftrightarrow> list_all (\<lambda>t. m t = None) (suffixes s)"

text \<open>
  What the text between the tildes of a placeholder of a kind begins with, loosely:
  enough for the expressions of the other kinds to fail on it.
\<close>

definition shaped :: "kind \<Rightarrow> string \<Rightarrow> bool" where
  "shaped k body =
     (case k of
        KHour \<Rightarrow> body = ''hour''
      | KDate \<Rightarrow> body = ''date''
      | KInc \<Rightarrow> prefix ''inc$'' body
      | KDec \<Rightarrow> prefix ''dec$'' body
      | KBrace \<Rightarrow> prefix ''{'' body
      | KPlus \<Rightarrow> (\<exists>a r. numeral_str a \<and> body = a @ '' + '' @ r)
      | KMinus \<Rightarrow> (\<exists>a r. numeral_str a \<and> body = a @ '' - '' @ r) \<or> prefix ''-'' body
      | KFiles \<Rightarrow> prefix ''files '' body
      | KLines \<Rightarrow> prefix ''lines '' body
      | KWords \<Rightarrow> prefix ''words '' body)"


subsection \<open>Templates with several placeholders\<close>

text \<open>
  A gap between two placeholders: plain, not empty, and begun by a character with
  which no placeholder begins after its tilde. Then the closing tilde of a placeholder
  cannot be read as the opening tilde of another one, whatever follows.
\<close>

definition gap :: "string \<Rightarrow> bool" where
  "gap sep \<longleftrightarrow>
     plain sep \<and> (case sep of [] \<Rightarrow> False | c # _ \<Rightarrow> c \<notin> set ''hdi{flw0123456789'')"

text \<open>
  A template is written from a list of items, each the text before a placeholder, the
  kind of the placeholder and its groups; the text after the last placeholder is
  appended to what \<open>written\<close> gives.
\<close>

type_synonym item = "string \<times> kind \<times> groups"





fun apart :: "kind \<Rightarrow> item list \<Rightarrow> bool" where
  "apart p [] \<longleftrightarrow> True"
| "apart p ((sep, k, g) # rest) \<longleftrightarrow> (gap sep \<or> sep = [] \<and> k = p) \<and> apart k rest"


text \<open>
  The template in the middle of a chain: the kinds \<open>ks\<close> have had their \<open>replace\<close>
  with the callback \<open>f\<close>, the others have not. \<open>seps_ok\<close> is what \<open>laid_out\<close> says of
  the texts between the placeholders, and \<open>body_of\<close> says that a text is a tilde, a
  plain text of the shape of a kind, and a tilde.
\<close>

fun pass :: "(kind \<Rightarrow> groups \<Rightarrow> string) \<Rightarrow> kind list \<Rightarrow> kind list \<Rightarrow> item list \<Rightarrow> string" where
  "pass f ks seen [] = []"
| "pass f ks seen ((sep, k, g) # rest) =
     sep @ (if k \<in> set ks \<and> (global k \<or> k \<notin> set seen) then f k g else placeholder k g)
       @ pass f ks (k # seen) rest"

fun seps_ok :: "item list \<Rightarrow> bool" where
  "seps_ok [] \<longleftrightarrow> True"
| "seps_ok ((sep, k, g) # rest) \<longleftrightarrow> plain sep \<and> apart k rest"

definition body_of :: "kind \<Rightarrow> string \<Rightarrow> bool" where
  "body_of k X \<longleftrightarrow> (\<exists>B. X = CHR ''~'' # B @ ''~'' \<and> plain B \<and> shaped k B)"

text \<open>
  A sample of the surroundings, for the examples: five past seven in the morning of
  2 November 2026, an upload directory in which nothing is found, and an HTTP library
  that accepts every request.
\<close>

definition env0 :: env where
  "env0 = \<lparr>e_hours = 7, e_minutes = 5, e_day = 2, e_month = 10, e_year = 2026,
            e_now = 1793602800000,
            fileById = (\<lambda>folder fid. []), getLine = (\<lambda>fileName lid. []),
            getWord = (\<lambda>fileName wid. []), e_send_error = (\<lambda>rq. None)\<rparr>"

section \<open>The persisted stores (db/drizzle.js)\<close>

text \<open>
  A task as it is kept in memory and in the table \<open>tasks\<close>. The name is the key.
  The other four fields are strings in a task saved through the API; in a task loaded
  from a configuration file a field can be \<open>null\<close> or \<open>undefined\<close>, and in a row of the
  table a column can be NULL.
\<close>

record task =
  t_name :: string
  t_type :: field
  t_data :: field
  t_postType :: field
  t_postData :: field

text \<open>A row of the table \<open>intervals\<close>: the task name is the key.\<close>

record interval_def =
  d_name :: string
  d_timeMs :: int

text \<open>A row of the table \<open>logs\<close>; \<open>id\<close> is an AUTOINCREMENT key.\<close>

record log_row =
  lr_id :: nat
  lr_message :: string
  lr_createdAt :: nat

text \<open>
  The database: the rows of the three tables in the order of their insertion, and
  the last id that the table \<open>logs\<close> has given out. (The tables of the clipboard and
  of the notes are outside the task engine and are left out.) The helper functions
  are the SQL statements of the source; that the database driver itself throws is not
  modelled, so the \<open>try { ... } catch (_) {}\<close> around each call has no branch here.
\<close>

record database =
  db_tasks :: "task list"
  db_intervals :: "interval_def list"
  db_logs :: "log_row list"
  db_log_seq :: nat

definition empty_db :: database where
  "empty_db = \<lparr>db_tasks = [], db_intervals = [], db_logs = [], db_log_seq = 0\<rparr>"

text \<open>\<open>SELECT ... FROM tasks ORDER BY name\<close>.\<close>

definition getAllTasks :: "database \<Rightarrow> task list" where
  "getAllTasks db = sort_key t_name (db_tasks db)"

text \<open>\<open>x ?? null\<close>.\<close>

fun or_null :: "field \<Rightarrow> field" where
  "or_null Undefined = Null"
| "or_null x = x"

text \<open>
  \<open>INSERT ... ON CONFLICT(name) DO UPDATE\<close>: the row of that name is overwritten. The
  row that is written has \<open>null\<close> where the task has \<open>undefined\<close>.
\<close>

definition upsertTask :: "task \<Rightarrow> database \<Rightarrow> database" where
  "upsertTask task db =
     (let row = \<lparr>t_name = t_name task, t_type = or_null (t_type task),
                  t_data = or_null (t_data task), t_postType = or_null (t_postType task),
                  t_postData = or_null (t_postData task)\<rparr>
      in db\<lparr>db_tasks :=
             (if t_name task \<in> set (map t_name (db_tasks db))
              then map (\<lambda>r. if t_name r = t_name task then row else r) (db_tasks db)
              else db_tasks db @ [row])\<rparr>)"

definition deleteTask :: "string \<Rightarrow> database \<Rightarrow> database" where
  "deleteTask name db = db\<lparr>db_tasks := filter (\<lambda>r. t_name r \<noteq> name) (db_tasks db)\<rparr>"

definition getAllIntervalDefs :: "database \<Rightarrow> interval_def list" where
  "getAllIntervalDefs db = sort_key d_name (db_intervals db)"

definition addIntervalDef :: "string \<Rightarrow> int \<Rightarrow> database \<Rightarrow> database" where
  "addIntervalDef name timeMs db =
     db\<lparr>db_intervals :=
          (if name \<in> set (map d_name (db_intervals db))
           then map (\<lambda>r. if d_name r = name then r\<lparr>d_timeMs := timeMs\<rparr> else r) (db_intervals db)
           else db_intervals db @ [\<lparr>d_name = name, d_timeMs = timeMs\<rparr>])\<rparr>"

definition deleteIntervalDef :: "string \<Rightarrow> database \<Rightarrow> database" where
  "deleteIntervalDef name db =
     db\<lparr>db_intervals := filter (\<lambda>r. d_name r \<noteq> name) (db_intervals db)\<rparr>"

text \<open>\<open>INSERT INTO logs(message, created_at)\<close>: the new row gets the next id.\<close>

definition addLog :: "string \<Rightarrow> nat \<Rightarrow> database \<Rightarrow> database" where
  "addLog message now db =
     db\<lparr>db_logs := db_logs db
            @ [\<lparr>lr_id = db_log_seq db + 1, lr_message = message, lr_createdAt = now\<rparr>],
        db_log_seq := db_log_seq db + 1\<rparr>"

text \<open>
  \<open>SELECT ... FROM logs ORDER BY id DESC LIMIT ?\<close>, then \<open>rows.reverse()\<close> and the
  messages: the last \<open>limit\<close> messages, oldest first.
\<close>

definition getLastLogs :: "nat \<Rightarrow> database \<Rightarrow> string list" where
  "getLastLogs limit db = map lr_message (rev (take limit (rev (sort_key lr_id (db_logs db)))))"

definition clearLogsTable :: "database \<Rightarrow> database" where
  "clearLogsTable db = db\<lparr>db_logs := []\<rparr>"

text \<open>\<open>clearAllData\<close>: the three tables are emptied in one transaction.\<close>

definition clearAllData :: "database \<Rightarrow> database" where
  "clearAllData db = db\<lparr>db_tasks := [], db_intervals := [], db_logs := []\<rparr>"

section \<open>The server (index.js)\<close>

text \<open>
  An entry of \<open>gIntervals\<close>, and a timer of the runtime that \<open>setInterval\<close> has
  created and \<open>clearInterval\<close> has not yet cleared. Only the timers whose callback is
  \<open>doTask\<close> for a task name are modelled; \<open>tm_delay\<close> is the delay that was passed to
  \<open>setInterval\<close>.
\<close>

record interval =
  i_name :: string
  i_id :: nat
  i_time :: int

record timer =
  tm_id :: nat
  tm_name :: string
  tm_delay :: int

text \<open>
  The state of the server: the three global caches, the database, the timers of the
  runtime, and the last timer id that the runtime has given out.
\<close>

record state =
  gTasks :: "task list"
  gTasksLog :: "string list"
  gIntervals :: "interval list"
  dbm :: database
  timers :: "timer list"
  timer_seq :: nat

definition MAX_LOG_ENTRIES :: nat where
  "MAX_LOG_ENTRIES = 1000"

text \<open>
  \<open>setInterval(() => doTask({body: {name}}), delay)\<close> returns a fresh id;
  \<open>clearInterval(id)\<close> stops the timer of that id, if there is one.
\<close>

definition setInterval :: "string \<Rightarrow> int \<Rightarrow> state \<Rightarrow> nat \<times> state" where
  "setInterval name delay s =
     (timer_seq s + 1,
      s\<lparr>timers := timers s @ [\<lparr>tm_id = timer_seq s + 1, tm_name = name, tm_delay = delay\<rparr>],
        timer_seq := timer_seq s + 1\<rparr>)"

definition clearInterval :: "jsnum \<Rightarrow> state \<Rightarrow> state" where
  "clearInterval iid s = s\<lparr>timers := filter (\<lambda>t. Fin (int (tm_id t)) \<noteq> iid) (timers s)\<rparr>"

text \<open>\<open>pushLog\<close>: the entry is written to the table, pushed onto the cache, and the
  cache is cut at the front down to the limit.\<close>

definition pushLog :: "env \<Rightarrow> string \<Rightarrow> state \<Rightarrow> state" where
  "pushLog e entry s =
     (let db' = addLog entry (e_now e) (dbm s);
          logs = gTasksLog s @ [entry]
      in s\<lparr>dbm := db',
           gTasksLog := (if MAX_LOG_ENTRIES < length logs
                         then drop (length logs - MAX_LOG_ENTRIES) logs else logs)\<rparr>)"

definition clearAllIntervals :: "state \<Rightarrow> state" where
  "clearAllIntervals s =
     (foldl (\<lambda>s' i. clearInterval (Fin (int (i_id i))) s') s (gIntervals s))\<lparr>gIntervals := []\<rparr>"

subsection \<open>Startup\<close>

text \<open>
  One turn of the \<open>defs.forEach\<close> loop of the startup block: a definition whose task
  is not in \<open>gTasks\<close> is deleted from the table, for any other a timer is started and
  an entry pushed onto \<open>gIntervals\<close>.
\<close>

definition rehydrate_def :: "state \<Rightarrow> interval_def \<Rightarrow> state" where
  "rehydrate_def s def =
     (if \<not> list_ex (\<lambda>t. t_name t = d_name def) (gTasks s)
      then s\<lparr>dbm := deleteIntervalDef (d_name def) (dbm s)\<rparr>
      else
        (case setInterval (d_name def) (d_timeMs def) s of
           (tid, s') \<Rightarrow>
             s'\<lparr>gIntervals := gIntervals s'
                    @ [\<lparr>i_name = d_name def, i_id = tid, i_time = d_timeMs def\<rparr>]\<rparr>))"

text \<open>
  The startup block, from the database as it was left on disk: the caches are filled
  (tasks whose name is blank are not loaded), then the interval definitions are gone
  through.
\<close>

definition startup :: "database \<Rightarrow> state" where
  "startup db =
     foldl rehydrate_def
       \<lparr>gTasks = filter (\<lambda>t. 0 < length (trim (t_name t))) (getAllTasks db),
        gTasksLog = getLastLogs MAX_LOG_ENTRIES db,
        gIntervals = [],
        dbm = db,
        timers = [],
        timer_seq = 0\<rparr>
       (getAllIntervalDefs db)"

subsection \<open>Running a task\<close>

text \<open>The \<open>switch (a.type)\<close> of \<open>doTask\<close>: the URL, and whether the request is a POST.\<close>

definition base_url :: string where
  "base_url = ''http://localhost:1337''"

definition target :: "field \<Rightarrow> string \<Rightarrow> string \<times> bool" where
  "target type data =
     (if type = Str ''http'' then (base_url @ ''/api/httpp/'' @ data, False)
      else if type = Str ''httppost'' then (base_url @ ''/api/httpp/'' @ data, True)
      else if type = Str ''https'' then (base_url @ ''/api/httpps/'' @ data, False)
      else if type = Str ''httpspost'' then (base_url @ ''/api/httpps/'' @ data, True)
      else if type = Str ''httptxt'' then (base_url @ ''/api/txt/httpp/'' @ data, False)
      else if type = Str ''httpstxt'' then (base_url @ ''/api/txt/httpps/'' @ data, False)
      else if type = Str ''scrapurl'' then (base_url @ ''/api/scraper/links/?link='' @ data, False)
      else if type = Str ''scrapimg'' then (base_url @ ''/api/scraper/imgs/?link='' @ data, False)
      else if type = Str ''cheerioc'' then (base_url @ ''/api/scraper/cheeriohtml/?link='' @ data, False)
      else if type = Str ''scraprss'' then (base_url @ ''/api/scraper/rss?link='' @ data, False)
      else if type = Str ''cclip'' then (base_url @ ''/api/clip/erase'', False)
      else if type = Str ''delfile'' then (base_url @ ''/api/files/del?path='' @ data, False)
      else if type = Str ''mvfile'' then (base_url @ ''/api/files/mv'' @ data, False)
      else if type = Str ''uploadlink'' then (base_url @ ''/api/uploadLink'', True)
      else if type = Str ''saveclip'' then (base_url @ ''/api/clip/save'', True)
      else if type = Str ''logfile'' then (base_url @ ''/api/task/log/toFile?name='' @ data, False)
      else if type = Str ''cfgimport'' then (base_url @ ''/api/cfg/import?path='' @ data, False)
      else if type = Str ''cfgexport'' then (base_url @ ''/api/cfg/export?name='' @ data, False)
      else if type = Str ''consoleget'' then (base_url @ ''/api/console?text='' @ data, False)
      else if type = Str ''consolepost'' then (base_url @ ''/api/console'', True)
      else if type = Str ''sendfile'' then (base_url @ ''/api/files/send'' @ data, False)
      else if type = Str ''reload'' then (base_url @ ''/api/reload?cfg='' @ data, False)
      else (''http://example.com'', False))"

text \<open>
  \<open>a.data = ...; a.postData = ...\<close>: the object that \<open>find\<close> returned, the first task
  of that name in \<open>gTasks\<close>, is changed in place.
\<close>

fun update_first :: "string \<Rightarrow> (task \<Rightarrow> task) \<Rightarrow> task list \<Rightarrow> task list" where
  "update_first name f [] = []"
| "update_first name f (t # ts) =
     (if t_name t = name then f t # ts else t # update_first name f ts)"

text \<open>
  The message of the TypeError that \<open>a.data.replace\<close> throws when the field is
  \<open>null\<close> or \<open>undefined\<close>, in the words of the engine; a string has the method.
\<close>

fun replace_type_error :: "field \<Rightarrow> string" where
  "replace_type_error Null =
     ''Cannot read properties of null (reading '' @ [CHR 0x27] @ ''replace'' @ [CHR 0x27] @ '')''"
| "replace_type_error Undefined =
     ''Cannot read properties of undefined (reading '' @ [CHR 0x27] @ ''replace'' @ [CHR 0x27] @ '')''"
| "replace_type_error (Str _) = []"

text \<open>
  \<open>doTask\<close>. The result is the new state and the requests handed to the HTTP library,
  none or one. A task that is not found is logged. A template that is \<open>null\<close> or
  \<open>undefined\<close>, \<open>data\<close> first and then \<open>postData\<close>, makes its first \<open>replace\<close> throw
  before anything is changed; the \<open>catch\<close> logs the error. Otherwise both values are
  computed, then both templates are advanced in \<open>gTasks\<close>, then the request is built
  and handed over; if the library throws at that point the error is logged and the
  templates stay advanced. The response arrives later, see \<open>on_response\<close>.
\<close>

definition doTask :: "env \<Rightarrow> string \<Rightarrow> state \<Rightarrow> state \<times> request list" where
  "doTask e tName s =
     (case find (\<lambda>ob. t_name ob = tName) (gTasks s) of
        None \<Rightarrow> (pushLog e (''Task '' @ [CHR 0x27] @ tName @ [CHR 0x27] @ '' not found'') s, [])
      | Some a \<Rightarrow>
          (case (t_data a, t_postData a) of
             (Str a_data, Str a_postData) \<Rightarrow>
               (let data = expand e a_data;
                    postData = expand e a_postData;
                    s1 = s\<lparr>gTasks := update_first tName
                            (\<lambda>t. t\<lparr>t_data := Str (advance a_data),
                                   t_postData := Str (advance a_postData)\<rparr>) (gTasks s)\<rparr>;
                    rq = (case target (t_type a) data of
                            (reqd, isPost) \<Rightarrow>
                              if isPost
                              then \<lparr>rq_method = POST, rq_url = reqd,
                                    rq_contentType = t_postType a, rq_body = postData\<rparr>
                              else \<lparr>rq_method = GET, rq_url = reqd,
                                    rq_contentType = Undefined, rq_body = []\<rparr>)
                in (case e_send_error e rq of
                      None \<Rightarrow> (s1, [rq])
                    | Some message \<Rightarrow> (pushLog e (''doTask error: '' @ message) s1, [])))
           | (Str a_data, missing) \<Rightarrow>
               (pushLog e (''doTask error: '' @ replace_type_error missing) s, [])
           | (missing, _) \<Rightarrow>
               (pushLog e (''doTask error: '' @ replace_type_error missing) s, [])))"

text \<open>
  What happens later to a request that was handed over: the body of the response is
  logged when it has arrived, or the error of the request.
\<close>

definition on_response :: "env \<Rightarrow> string \<Rightarrow> state \<Rightarrow> state" where
  "on_response e d s = pushLog e d s"

definition on_error :: "env \<Rightarrow> string \<Rightarrow> http_method \<Rightarrow> string \<Rightarrow> state \<Rightarrow> state" where
  "on_error e tName method message s =
     pushLog e (''Task '' @ [CHR 0x27] @ tName @ [CHR 0x27]
                  @ (case method of POST \<Rightarrow> '' POST error: '' | GET \<Rightarrow> '' GET error: '')
                  @ message) s"

text \<open>A tick of a timer runs \<open>doTask\<close> for the name the timer was created with.\<close>

definition tick :: "env \<Rightarrow> timer \<Rightarrow> state \<Rightarrow> state \<times> request list" where
  "tick e t s = doTask e (tm_name t) s"

subsection \<open>The routes\<close>

text \<open>
  A reply is a status and a body; \<open>res.send(gTasks)\<close> sends the list of tasks. A field
  of a request body that is absent is the empty string here, as \<open>String(x || '')\<close>
  makes it.
\<close>

datatype reply_body = Text string | TaskList "task list"

type_synonym reply = "nat \<times> reply_body"

text \<open>
  \<open>const idx = gTasks.findIndex(...); if (idx >= 0) gTasks[idx] = task; else
  gTasks.push(task)\<close>.
\<close>

definition put_task :: "task \<Rightarrow> task list \<Rightarrow> task list" where
  "put_task task ts =
     (if list_ex (\<lambda>ob. t_name ob = t_name task) ts
      then update_first (t_name task) (\<lambda>_. task) ts
      else ts @ [task])"

text \<open>\<open>POST /api/task/add\<close>.\<close>

definition api_task_add ::
    "string \<Rightarrow> string \<Rightarrow> string \<Rightarrow> string \<Rightarrow> string \<Rightarrow> state \<Rightarrow> reply \<times> state" where
  "api_task_add name type data pType pData s =
     (let tName = trim name in
      if tName = [] then ((400, Text ''Task name is required''), s)
      else
        let task = \<lparr>t_name = tName, t_type = Str type, t_data = Str data,
                     t_postType = Str pType, t_postData = Str pData\<rparr>;
            s' = s\<lparr>dbm := upsertTask task (dbm s), gTasks := put_task task (gTasks s)\<rparr>
        in ((200, TaskList (gTasks s')), s'))"

text \<open>\<open>POST /api/task/run\<close>.\<close>

definition api_task_run :: "env \<Rightarrow> string \<Rightarrow> state \<Rightarrow> reply \<times> state \<times> request list" where
  "api_task_run e name s = ((200, Text ''Task execution triggered''), doTask e name s)"

text \<open>
  \<open>GET /api/task/del/:name\<close>. The definitions and timers that are removed are those
  of the entries of \<open>gIntervals\<close> with that name.
\<close>

definition api_task_del :: "string \<Rightarrow> state \<Rightarrow> reply \<times> state" where
  "api_task_del tName s =
     (let s1 = s\<lparr>dbm := deleteTask tName (dbm s),
                 gTasks := filter (\<lambda>ob. t_name ob \<noteq> tName) (gTasks s)\<rparr>;
          affected = filter (\<lambda>inte. i_name inte = tName) (gIntervals s1);
          s2 = foldl (\<lambda>s' inte.
                 clearInterval (Fin (int (i_id inte)))
                   (s'\<lparr>dbm := deleteIntervalDef (i_name inte) (dbm s')\<rparr>)) s1 affected;
          s3 = s2\<lparr>gIntervals := filter (\<lambda>inte. i_name inte \<noteq> tName) (gIntervals s2)\<rparr>
      in ((200, Text (''Task '' @ [CHR 0x27] @ tName @ [CHR 0x27] @ '' removed. Also removed ''
                      @ dec (length affected) @ '' routine(s) using this task.'')), s3))"

text \<open>\<open>intTime <= 0\<close> on a number.\<close>

fun js_le_zero :: "jsnum \<Rightarrow> bool" where
  "js_le_zero (Fin n) = (n \<le> 0)"
| "js_le_zero NegInf = True"
| "js_le_zero _ = False"

fun js_int :: "jsnum \<Rightarrow> int" where
  "js_int (Fin n) = n"
| "js_int _ = 0"

text \<open>
  \<open>POST /api/task/interval/add\<close>: the three checks in their order, each answered with
  status 400; then the definition is stored, the timer started and the entry pushed.
  (\<open>js_int\<close> is applied to a finite number only.)
\<close>

definition api_interval_add :: "string \<Rightarrow> string \<Rightarrow> state \<Rightarrow> reply \<times> state" where
  "api_interval_add time name0 s =
     (let intTime = parseInt time;
          name = trim name0
      in if name = [] then ((400, Text ''Task name is required for routine''), s)
         else if \<not> js_isFinite intTime \<or> js_le_zero intTime
           then ((400, Text ''Invalid interval time''), s)
         else if \<not> list_ex (\<lambda>t. t_name t = name) (gTasks s)
           then ((400, Text (''Task '' @ [CHR 0x27] @ name @ [CHR 0x27] @ '' does not exist'')), s)
         else
           (case setInterval name (js_int intTime)
                   (s\<lparr>dbm := addIntervalDef name (js_int intTime) (dbm s)\<rparr>) of
              (tid, s') \<Rightarrow>
                ((200, Text ''Added new interval''),
                 s'\<lparr>gIntervals := gIntervals s'
                        @ [\<lparr>i_name = name, i_id = tid, i_time = js_int intTime\<rparr>]\<rparr>)))"

text \<open>\<open>GET /api/task/interval/kill/:iid\<close>.\<close>

definition api_interval_kill :: "string \<Rightarrow> state \<Rightarrow> reply \<times> state" where
  "api_interval_kill iid_param s =
     (let iid = parseInt iid_param;
          s1 = (case find (\<lambda>inte. Fin (int (i_id inte)) = iid) (gIntervals s) of
                  Some found \<Rightarrow> s\<lparr>dbm := deleteIntervalDef (i_name found) (dbm s)\<rparr>
                | None \<Rightarrow> s);
          s2 = clearInterval iid s1;
          s3 = s2\<lparr>gIntervals := filter (\<lambda>inte. Fin (int (i_id inte)) \<noteq> iid) (gIntervals s2)\<rparr>
      in ((200, Text (''interval with '' @ js_to_string iid @ '' id has been stopped'')), s3))"

text \<open>\<open>GET /api/task/log/clear\<close>.\<close>

definition api_log_clear :: "state \<Rightarrow> reply \<times> state" where
  "api_log_clear s =
     ((200, Text ''Tasks log cleared!''), s\<lparr>dbm := clearLogsTable (dbm s), gTasksLog := []\<rparr>)"

text \<open>\<open>GET /api/restart\<close>.\<close>

definition api_restart :: "state \<Rightarrow> reply \<times> state" where
  "api_restart s =
     (let s1 = clearAllIntervals s
      in ((200, Text ''Home middleman has been restarted''),
          s1\<lparr>dbm := clearAllData (dbm s1), gTasks := [], gTasksLog := []\<rparr>))"

subsection \<open>Configuration files\<close>

text \<open>
  The entries of a parsed configuration file: a task with its five fields (an absent
  name is the empty string), a routine with the task name and the period in
  milliseconds, or anything else, which is skipped. A file is unreadable, or no
  JSON, or parsed.
\<close>

datatype cfg_entry =
    CfgTask string field field field field
  | CfgRoutine string int
  | CfgOther

datatype cfg_file = Unreadable string | Invalid_JSON | Parsed "cfg_entry list"

fun tasksToUpsert :: "cfg_entry list \<Rightarrow> task list" where
  "tasksToUpsert [] = []"
| "tasksToUpsert (CfgTask n ty d pt pd # es) =
     \<lparr>t_name = n, t_type = ty, t_data = d, t_postType = pt, t_postData = pd\<rparr> # tasksToUpsert es"
| "tasksToUpsert (_ # es) = tasksToUpsert es"

fun routinesToAdd :: "cfg_entry list \<Rightarrow> (string \<times> int) list" where
  "routinesToAdd [] = []"
| "routinesToAdd (CfgRoutine n t # es) = (n, t) # routinesToAdd es"
| "routinesToAdd (_ # es) = routinesToAdd es"

text \<open>
  One turn of the loop over the tasks: a task with a blank name is skipped, any other
  is stored under its trimmed name. On import it replaces the task of that name in
  \<open>gTasks\<close>; on reload, after everything has been cleared, it is pushed.
\<close>

definition import_task :: "state \<Rightarrow> task \<Rightarrow> state" where
  "import_task s t =
     (let nm = trim (t_name t) in
      if nm = [] then s
      else s\<lparr>dbm := upsertTask (t\<lparr>t_name := nm\<rparr>) (dbm s),
             gTasks := put_task (t\<lparr>t_name := nm\<rparr>) (gTasks s)\<rparr>)"

definition reload_task :: "state \<Rightarrow> task \<Rightarrow> state" where
  "reload_task s t =
     (let nm = trim (t_name t) in
      if nm = [] then s
      else s\<lparr>dbm := upsertTask (t\<lparr>t_name := nm\<rparr>) (dbm s),
             gTasks := gTasks s @ [t\<lparr>t_name := nm\<rparr>]\<rparr>)"

text \<open>
  One turn of the loop over the routines, the same on import and on reload: a routine
  whose task is not in \<open>gTasks\<close> is skipped and its name collected; the period is not
  checked.
\<close>

definition add_routine :: "state \<times> string list \<Rightarrow> string \<times> int \<Rightarrow> state \<times> string list" where
  "add_routine acc r =
     (case (acc, r) of
        ((s, skipped), (name, time)) \<Rightarrow>
          if \<not> list_ex (\<lambda>t. t_name t = name) (gTasks s) then (s, skipped @ [name])
          else
            (case setInterval name time (s\<lparr>dbm := addIntervalDef name time (dbm s)\<rparr>) of
               (tid, s') \<Rightarrow>
                 (s'\<lparr>gIntervals := gIntervals s' @ [\<lparr>i_name = name, i_id = tid, i_time = time\<rparr>]\<rparr>,
                  skipped)))"

fun join_comma :: "string list \<Rightarrow> string" where
  "join_comma [] = []"
| "join_comma [w] = w"
| "join_comma (w # ws) = w @ '', '' @ join_comma ws"

text \<open>\<open>GET /api/cfg/import\<close>, once the file has been read.\<close>

definition api_cfg_import :: "string \<Rightarrow> cfg_file \<Rightarrow> state \<Rightarrow> reply \<times> state" where
  "api_cfg_import path file s =
     (case file of
        Unreadable message \<Rightarrow> ((400, Text (''Failed to read config: '' @ message)), s)
      | Invalid_JSON \<Rightarrow> ((400, Text ''Invalid JSON''), s)
      | Parsed parsed \<Rightarrow>
          (case foldl add_routine (foldl import_task s (tasksToUpsert parsed), [])
                  (routinesToAdd parsed) of
             (s', skipped) \<Rightarrow>
               ((200, Text (if skipped = [] then ''Config '' @ path @ '' loaded''
                            else ''Config '' @ path
                               @ '' loaded. Skipped routines for missing tasks: ''
                               @ join_comma skipped)),
                s')))"

text \<open>
  \<open>GET /api/reload\<close>: everything is cleared at once (\<open>api_reload\<close>); the file is read
  afterwards, and when it has been read the entries are loaded (\<open>api_reload_loaded\<close>).
\<close>

definition api_reload :: "state \<Rightarrow> state" where
  "api_reload s =
     (let s1 = clearAllIntervals s
      in s1\<lparr>gTasks := [], gTasksLog := [], dbm := clearAllData (dbm s1)\<rparr>)"

definition api_reload_loaded :: "string \<Rightarrow> cfg_file \<Rightarrow> state \<Rightarrow> reply \<times> state" where
  "api_reload_loaded cfg file s =
     (case file of
        Unreadable message \<Rightarrow> ((400, Text (''Failed to read config: '' @ message)), s)
      | Invalid_JSON \<Rightarrow> ((400, Text ''Invalid JSON''), s)
      | Parsed parsed \<Rightarrow>
          (case foldl add_routine (foldl reload_task s (tasksToUpsert parsed), [])
                  (routinesToAdd parsed) of
             (s', skipped) \<Rightarrow>
               ((200, Text (if skipped = []
                            then ''Restarted Home Middleman and loaded '' @ cfg @ '' config''
                            else ''Restarted Home Middleman and loaded '' @ cfg
                               @ '' config. Skipped routines for missing tasks: ''
                               @ join_comma skipped)),
                s')))"

subsection \<open>The states the server can be in\<close>

text \<open>
  The server starts from the database on disk, and then every step is one of the
  operations above, with any arguments.
\<close>

inductive reachable :: "state \<Rightarrow> bool" where
  r_startup: "reachable (startup db)"
| r_task_add: "reachable s \<Longrightarrow> reachable (snd (api_task_add name type data pType pData s))"
| r_task_del: "reachable s \<Longrightarrow> reachable (snd (api_task_del tName s))"
| r_doTask: "reachable s \<Longrightarrow> reachable (fst (doTask e tName s))"
| r_log: "reachable s \<Longrightarrow> reachable (pushLog e entry s)"
| r_log_clear: "reachable s \<Longrightarrow> reachable (snd (api_log_clear s))"
| r_interval_add: "reachable s \<Longrightarrow> reachable (snd (api_interval_add time name s))"
| r_interval_kill: "reachable s \<Longrightarrow> reachable (snd (api_interval_kill iid s))"
| r_cfg_import: "reachable s \<Longrightarrow> reachable (snd (api_cfg_import path file s))"
| r_restart: "reachable s \<Longrightarrow> reachable (snd (api_restart s))"
| r_reload: "reachable s \<Longrightarrow> reachable (api_reload s)"
| r_reload_loaded: "reachable s \<Longrightarrow> reachable (snd (api_reload_loaded cfg file s))"

text \<open>No interval without its task, in memory and in the database.\<close>

definition no_orphans :: "state \<Rightarrow> bool" where
  "no_orphans s \<longleftrightarrow>
     list_all (\<lambda>i. i_name i \<in> set (map t_name (gTasks s))) (gIntervals s)
   \<and> list_all (\<lambda>d. d_name d \<in> set (map t_name (db_tasks (dbm s)))) (db_intervals (dbm s))"

text \<open>
  What holds in every reachable state, and carries \<open>no_orphans\<close> through the
  operations: an interval in memory has its task in memory; a definition in the
  database has an interval in memory; a task in memory is in the database; the
  entries of \<open>gIntervals\<close> are the running timers, one for one, with ids that are
  pairwise different and not beyond the last id given out.
\<close>

definition timer_of :: "interval \<Rightarrow> timer" where
  "timer_of i = \<lparr>tm_id = i_id i, tm_name = i_name i, tm_delay = i_time i\<rparr>"

definition consistent :: "state \<Rightarrow> bool" where
  "consistent s \<longleftrightarrow>
     set (map i_name (gIntervals s)) \<subseteq> set (map t_name (gTasks s))
   \<and> set (map d_name (db_intervals (dbm s))) \<subseteq> set (map i_name (gIntervals s))
   \<and> set (map t_name (gTasks s)) \<subseteq> set (map t_name (db_tasks (dbm s)))
   \<and> timers s = map timer_of (gIntervals s)
   \<and> distinct (map i_id (gIntervals s))
   \<and> list_all (\<lambda>i. i_id i \<le> timer_seq s) (gIntervals s)"

text \<open>
  What the schema and the writers guarantee of a database on disk: the keys of the
  two tables are unique, and no task has a blank name.
\<close>

definition db_ok :: "database \<Rightarrow> bool" where
  "db_ok db \<longleftrightarrow>
     distinct (map t_name (db_tasks db))
   \<and> distinct (map d_name (db_intervals db))
   \<and> list_all (\<lambda>t. 0 < length (trim (t_name t))) (db_tasks db)"

subsection \<open>Sample states and databases\<close>

text \<open>
  The server started on an empty database, after one task has been saved through
  \<open>POST /api/task/add\<close>: a GET task whose address ends in a counter.
\<close>

definition counter_task_state :: state where
  "counter_task_state =
     snd (api_task_add ''t'' ''http'' ''example.org/~inc$5~'' [] [] (startup empty_db))"



section \<open>The retry-capable HTTP client (index.js, withRetries)\<close>

text \<open>
  One call of \<open>httpRequestWithTimeout\<close> either resolves with a response, of which
  \<open>withRetries\<close> reads the status code only, or rejects with an error, of which
  \<open>isTransientError\<close> reads the property \<open>code\<close> only (absent for an error that is
  no system error). The network is a parameter of the model: \<open>net i\<close> is the outcome of
  the call number \<open>i\<close> (counted from 0) that the client makes.
\<close>

datatype outcome = Resolved nat | Rejected "string option"

definition RETRY_BACKOFFS_MS :: "nat list" where
  "RETRY_BACKOFFS_MS = [500, 1500, 3500]"

definition isTransientStatus :: "nat \<Rightarrow> bool" where
  "isTransientStatus statusCode \<longleftrightarrow> statusCode = 408 \<or> statusCode = 429 \<or> statusCode \<ge> 500"

definition transient_codes :: "string list" where
  "transient_codes = [''ETIMEDOUT'', ''ECONNRESET'', ''EAI_AGAIN'', ''ECONNREFUSED'',
     ''ENETUNREACH'', ''EHOSTUNREACH'', ''ENOTFOUND'', ''EPIPE'']"

text \<open>\<open>!err || !err.code\<close>: an error without a code, or with the empty code, is not
  transient.\<close>

definition isTransientError :: "string option \<Rightarrow> bool" where
  "isTransientError err =
     (case err of None \<Rightarrow> False
      | Some code \<Rightarrow> if code = [] then False else code \<in> set transient_codes)"

text \<open>What makes the loop of \<open>withRetries\<close> sleep and go round again.\<close>

definition retryable :: "outcome \<Rightarrow> bool" where
  "retryable out = (case out of Resolved st \<Rightarrow> isTransientStatus st
                    | Rejected err \<Rightarrow> isTransientError err)"

text \<open>
  The result of a run: the outcome handed to the caller (\<open>Resolved\<close> is the returned
  response, \<open>Rejected\<close> the error thrown), the delays slept in order, and the number of
  calls made.
\<close>

record retry_run =
  rr_result :: outcome
  rr_slept :: "nat list"
  rr_calls :: nat

text \<open>
  The \<open>while (attempt < backoffsMs.length)\<close> loop. \<open>attempt\<close> is incremented exactly
  when the loop sleeps, so it is also the number of calls made so far. After the loop
  the last call is made and its promise returned as it is.
\<close>

function retry_loop :: "(nat \<Rightarrow> outcome) \<Rightarrow> nat list \<Rightarrow> nat \<Rightarrow> nat list \<Rightarrow> retry_run" where
  "retry_loop net backoffsMs attempt slept =
     (if attempt < length backoffsMs then
        (case net attempt of
           Resolved st \<Rightarrow>
             if isTransientStatus st
             then retry_loop net backoffsMs (attempt + 1) (slept @ [backoffsMs ! attempt])
             else \<lparr>rr_result = Resolved st, rr_slept = slept, rr_calls = attempt + 1\<rparr>
         | Rejected err \<Rightarrow>
             if isTransientError err
             then retry_loop net backoffsMs (attempt + 1) (slept @ [backoffsMs ! attempt])
             else \<lparr>rr_result = Rejected err, rr_slept = slept, rr_calls = attempt + 1\<rparr>)
      else \<lparr>rr_result = net attempt, rr_slept = slept, rr_calls = attempt + 1\<rparr>)"
  by pat_completeness auto
termination
  by (relation "measure (\<lambda>(net, backoffsMs, attempt, slept). length backoffsMs - attempt)") auto

definition withRetries :: "(nat \<Rightarrow> outcome) \<Rightarrow> nat list \<Rightarrow> retry_run" where
  "withRetries net backoffsMs = retry_loop net backoffsMs 0 []"

text \<open>What a run of the loop started at \<open>attempt\<close> guarantees.\<close>

definition retry_post :: "(nat \<Rightarrow> outcome) \<Rightarrow> nat list \<Rightarrow> nat \<Rightarrow> retry_run \<Rightarrow> bool" where
  "retry_post net backoffsMs attempt r \<longleftrightarrow>
     rr_slept r = take (length (rr_slept r)) backoffsMs
   \<and> attempt \<le> length (rr_slept r)
   \<and> length (rr_slept r) \<le> length backoffsMs
   \<and> rr_calls r = length (rr_slept r) + 1
   \<and> rr_result r = net (length (rr_slept r))
   \<and> (\<forall>i. attempt \<le> i \<and> i < length (rr_slept r) \<longrightarrow> retryable (net i))
   \<and> (length (rr_slept r) < length backoffsMs \<longrightarrow> \<not> retryable (net (length (rr_slept r))))"

section \<open>Properties of the numbers\<close>

declare dec.simps [simp del]

lemma digit_char_is_digit: "d < 10 \<Longrightarrow> is_digit (digit_char d)"
  unfolding digit_char_def is_digit_def by (rule nth_mem) simp

lemma below_ten: "d < 10 \<Longrightarrow> d \<in> {0, 1, 2, 3, 4, 5, 6, 7, 8, 9::nat}"
  by auto

lemma digit_val_digit_char: "d < 10 \<Longrightarrow> digit_val (digit_char d) = d"
  by (drule below_ten) (auto simp add: digit_char_def digit_val_def)

lemma dec_digit: "n < 10 \<Longrightarrow> dec n = [digit_char n]"
  by (subst dec.simps) simp

lemma dec_nonempty: "dec n \<noteq> []"
  by (subst dec.simps) simp

lemma dec_digits: "list_all is_digit (dec n)"
proof (induction n rule: dec.induct)
  case (1 n)
  show ?case
  proof (cases "n < 10")
    case True
    then show ?thesis by (subst dec.simps) (simp add: digit_char_is_digit)
  next
    case False
    with 1 show ?thesis by (subst dec.simps) (simp add: digit_char_is_digit)
  qed
qed

lemma digits_val_snoc: "digits_val (ds @ [c]) = 10 * digits_val ds + digit_val c"
  by (simp add: digits_val_def)

lemma digits_val_dec: "digits_val (dec n) = n"
proof (induction n rule: dec.induct)
  case (1 n)
  show ?case
  proof (cases "n < 10")
    case True
    then show ?thesis by (subst dec.simps) (simp add: digits_val_def digit_val_digit_char)
  next
    case False
    with 1 show ?thesis
      by (subst dec.simps) (simp add: digits_val_snoc digit_val_digit_char)
  qed
qed

lemma length_dec_le: "n < 10 ^ k \<Longrightarrow> 0 < k \<Longrightarrow> length (dec n) \<le> k"
proof (induction n arbitrary: k rule: dec.induct)
  case (1 n)
  show ?case
  proof (cases "n < 10")
    case True
    with 1(3) show ?thesis by (subst dec.simps) simp
  next
    case False
    obtain k' where k: "k = Suc k'" using 1(3) by (cases k) auto
    have "k' > 0" using False 1(2) k by (cases k') auto
    moreover have "n div 10 < 10 ^ k'" using 1(2) k by (simp add: less_mult_imp_div_less)
    ultimately have "length (dec (n div 10)) \<le> k'" using 1(1)[OF False] by blast
    with False k show ?thesis by (subst dec.simps) simp
  qed
qed

lemma round_double_small: "\<bar>n\<bar> < 2 ^ 53 \<Longrightarrow> round_double n = Fin n"
proof -
  assume "\<bar>n\<bar> < 2 ^ 53"
  then have "nat \<bar>n\<bar> < 2 ^ 53" by (simp add: nat_less_iff)
  then show ?thesis unfolding round_double_def Let_def by (simp only: if_True)
qed

lemma round_double_big:
  assumes "2 ^ 53 \<le> a" and "round_double (int a) = Fin b"
  shows "2 ^ 53 \<le> b"
proof -
  define e where "e = floorlog 2 a - 53"
  define q where "q = a div 2 ^ e"
  define q' where "q' = (if 2 ^ (e - 1) < a mod 2 ^ e \<or> (a mod 2 ^ e = 2 ^ (e - 1) \<and> odd q) then q + 1 else q)"
  have a0: "0 < a" using assms(1) by (simp add: less_le_trans[of 0 "2^53"])
  have fl: "54 \<le> floorlog 2 a" using assms(1) by (intro floorlog_geI) simp_all
  then have e1: "1 \<le> e" and fe: "floorlog 2 a - 1 = e + 52" by (simp_all add: e_def)
  have "2 ^ (e + 52) \<le> a" using floorlog_bounds[OF a0, of 2] fe by simp
  then have "2 ^ 52 * 2 ^ e \<le> (a::nat)" by (simp add: power_add mult.commute)
  then have q52: "2 ^ 52 \<le> q" unfolding q_def by (simp add: less_eq_div_iff_mult_less_eq)
  have "q \<le> q'" by (simp add: q'_def)
  with q52 have "2 ^ 52 \<le> q'" by simp
  moreover have "(2::nat) ^ 1 \<le> 2 ^ e" using e1 by (intro power_increasing) simp_all
  ultimately have "2 ^ 52 * (2::nat) ^ 1 \<le> q' * 2 ^ e"
    by (intro mult_mono) simp_all
  then have big: "2 ^ 53 \<le> q' * 2 ^ e" by simp
  have "round_double (int a)
          = (if 2 ^ 1024 \<le> q' * 2 ^ e then PosInf else Fin (int (q' * 2 ^ e)))"
    using assms(1) unfolding round_double_def Let_def q'_def q_def e_def by simp
  with assms(2) have "b = int (q' * 2 ^ e)" by (simp split: if_splits)
  with big show ?thesis by (metis of_nat_le_iff of_nat_numeral of_nat_power)
qed

lemma round_double_ne:
  assumes "a < 2 ^ 53" "v \<noteq> a"
  shows "round_double (int v) \<noteq> Fin (int a)"
proof (cases "v < 2 ^ 53")
  case True
  then show ?thesis using assms by (simp add: round_double_small)
next
  case False
  show ?thesis
  proof
    assume "round_double (int v) = Fin (int a)"
    with False have "2 ^ 53 \<le> int a" by (intro round_double_big[of v]) simp_all
    with assms(1) show False by (metis not_less of_nat_le_iff of_nat_numeral of_nat_power)
  qed
qed

lemma shortest_from_small: "a < 2 ^ 53 \<Longrightarrow> shortest_from j a = a"
proof (induction j)
  case 0
  show ?case by simp
next
  case (Suc j)
  let ?p = "10 ^ Suc j :: nat"
  let ?lo = "(a div ?p) * ?p"
  have hi: "round_double (int (?lo + ?p)) \<noteq> Fin (int a)"
  proof (rule round_double_ne[OF Suc.prems])
    have "a mod ?p < ?p" by simp
    then have "a < ?lo + ?p" by (metis add.commute div_mult_mod_eq nat_add_left_cancel_less)
    then show "?lo + ?p \<noteq> a" by simp
  qed
  have lo: "round_double (int ?lo) = Fin (int a) \<longleftrightarrow> ?lo = a"
  proof (cases "?lo = a")
    case True
    have "round_double (int a) = Fin (int a)"
      using Suc.prems by (intro round_double_small) simp
    with True show ?thesis by simp
  next
    case False
    then show ?thesis using round_double_ne[OF Suc.prems, of ?lo] by simp
  qed
  show ?case
    unfolding shortest_from.simps Let_def using hi lo Suc.IH[OF Suc.prems] by auto
qed

lemma nat_to_string_small: "a < 2 ^ 53 \<Longrightarrow> nat_to_string a = dec a"
proof -
  assume a: "a < 2 ^ 53"
  have "(2::nat) ^ 53 < 10 ^ 21" by simp
  with a have "a < 10 ^ 21" by simp
  then have "length (dec a) \<le> 21" by (intro length_dec_le) simp_all
  moreover have "dec 0 = ''0''" by (subst dec.simps) (simp add: digit_char_def)
  ultimately show ?thesis using a by (auto simp add: nat_to_string_def shortest_from_small Let_def)
qed

lemma round_double_2_53: "round_double 9007199254740992 = Fin 9007199254740992"
  by (simp add: round_double_def compute_floorlog Let_def)

lemma dec_2_53: "dec 9007199254740992 = ''9007199254740992''"
  by (simp add: dec.simps digit_char_def)

lemmas number_eval = round_double_def compute_floorlog Let_def dec.simps digit_char_def
  digit_val_def digits_val_def nat_to_string_def strip_zeros_def is_digit_def is_space_def
  parseInt_def js_sub_def

text \<open>
  From \<open>2^53\<close> up to \<open>2^54\<close> the doubles are the even integers: an odd integer is
  rounded to the neighbour whose half is even.
\<close>

lemma round_double_54:
  assumes "2 ^ 53 \<le> n" "n < 2 ^ 54"
  shows "round_double n = Fin (if odd n \<and> odd (n div 2) then n + 1 else n - n mod 2)"
proof -
  define a where "a = nat \<bar>n\<bar>"
  have n: "n = int a" "\<not> n < 0" using assms(1) by (simp_all add: a_def)
  have a: "2 ^ 53 \<le> a" "a < 2 ^ 54" using assms by (simp_all add: a_def nat_le_iff nat_less_iff)
  have "floorlog 2 a \<le> 54" using a(2) by (intro floorlog_leI) simp_all
  moreover have "54 \<le> floorlog 2 a" using a(1) by (intro floorlog_geI) simp_all
  ultimately have fl: "floorlog 2 a = 54" by simp
  have q: "a div 2 < 2 ^ 53" using a(2) by simp
  have small: "\<not> (2 ^ 1024 \<le> (a div 2 + 1) * 2)" "\<not> (2 ^ 1024 \<le> (a div 2) * 2)"
    using q by simp_all
  have "round_double n = Fin (int (if a mod 2 = 1 \<and> odd (a div 2) then (a div 2 + 1) * 2 else (a div 2) * 2))"
    unfolding round_double_def Let_def a_def[symmetric] fl using a(1) n(2) small
    by (auto simp add: not_less)
  moreover have "int (if a mod 2 = 1 \<and> odd (a div 2) then (a div 2 + 1) * 2 else (a div 2) * 2)
      = (if odd n \<and> odd (n div 2) then n + 1 else n - n mod 2)"
    unfolding n(1) by (auto simp add: odd_iff_mod_2_eq_one zdiv_int zmod_int; presburger)
  ultimately show ?thesis by simp
qed

lemma nat_to_string_2_53: "nat_to_string 9007199254740992 = ''9007199254740992''"
  by (simp add: nat_to_string_def Let_def dec.simps digit_char_def round_double_54
      round_double_small)

text \<open>An integer of \<open>2^1024\<close> or more is read as infinity.\<close>

lemma round_double_inf:
  assumes "2 ^ 1024 \<le> a"
  shows "round_double (int a) = PosInf"
proof -
  have pos: "0 < a" using assms by (simp add: Suc_le_eq order_less_le_trans[of 0 "2 ^ 1024" a])
  have big: "\<not> a < 2 ^ 53"
  proof
    assume "a < 2 ^ 53"
    moreover have "(2::nat) ^ 53 \<le> 2 ^ 1024" by (rule power_increasing) simp_all
    ultimately show False using assms by simp
  qed
  define fl where "fl = floorlog 2 a"
  define e where "e = fl - 53"
  have b: "2 ^ (fl - 1) \<le> a" "a < 2 ^ fl"
    using floorlog_bounds[of a 2] pos by (simp_all add: fl_def)
  have lt: "(2::nat) ^ 1024 < 2 ^ fl" using assms b(2) by (rule le_less_trans)
  have fl: "1024 < fl" by (rule power_less_imp_less_exp[OF _ lt]) simp
  then have e: "e \<le> fl - 1" "fl - 1 = 52 + e" by (simp_all add: e_def)
  have "(2::nat) ^ 52 * 2 ^ e \<le> a" using b(1) unfolding e(2) by (simp add: power_add)
  then have "2 ^ 52 \<le> a div 2 ^ e" by (simp add: less_eq_div_iff_mult_less_eq)
  then have A: "2 ^ 52 * 2 ^ e \<le> (a div 2 ^ e) * 2 ^ e" by (rule mult_le_mono1)
  have B: "(2::nat) ^ 1024 \<le> 2 ^ 52 * 2 ^ e"
  proof -
    have "(2::nat) ^ 1024 \<le> 2 ^ (52 + e)" using fl e(2) by (intro power_increasing) simp_all
    then show ?thesis by (simp only: power_add)
  qed
  have q: "2 ^ 1024 \<le> (a div 2 ^ e) * 2 ^ e" using B A by (rule order_trans)
  have "(a div 2 ^ e) * 2 ^ e \<le> (a div 2 ^ e + 1) * 2 ^ e" by (rule mult_le_mono1) simp
  with q have q1: "2 ^ 1024 \<le> (a div 2 ^ e + 1) * 2 ^ e" by (rule order_trans)
  show ?thesis
    unfolding round_double_def Let_def using big q q1
    by (simp add: fl_def[symmetric] e_def[symmetric])
qed

lemma digits_val_zeros: "digits_val (ds @ replicate n (CHR ''0'')) = digits_val ds * 10 ^ n"
proof (induction n)
  case 0
  show ?case by simp
next
  case (Suc n)
  have "digits_val (ds @ replicate (Suc n) (CHR ''0'')) = digits_val ((ds @ replicate n (CHR ''0'')) @ [CHR ''0''])"
    by (simp add: replicate_append_same)
  also have "\<dots> = 10 * digits_val (ds @ replicate n (CHR ''0'')) + digit_val (CHR ''0'')"
    by (rule digits_val_snoc)
  finally show ?case using Suc by (simp add: digit_val_def)
qed

section \<open>Properties of the matchers\<close>

lemma strip_prefix_append [simp]: "strip_prefix p (p @ r) = Some r"
  by (induction p) simp_all

lemma strip_prefix_Some: "strip_prefix p s = Some r \<longleftrightarrow> s = p @ r"
  by (induction p s rule: strip_prefix.induct) auto

lemma strip_prefix_tilde_in: "strip_prefix (CHR ''~'' # p) s = Some r \<Longrightarrow> CHR ''~'' \<in> set s"
  by (auto simp add: strip_prefix_Some)

lemma is_digit_simps [simp]:
  "\<not> is_digit (CHR ''~'')" "\<not> is_digit (CHR '' '')" "\<not> is_digit (CHR ''+'')"
  "\<not> is_digit (CHR ''-'')" "\<not> is_digit (CHR ''}'')"
  by (simp_all add: is_digit_def)

lemma is_space_simps [simp]:
  "is_space (CHR '' '')" "\<not> is_space (CHR ''~'')" "\<not> is_space (CHR ''+'')" "\<not> is_space (CHR ''-'')"
  by (simp_all add: is_space_def)

lemma digit_not_space: "is_digit c \<Longrightarrow> \<not> is_space c"
  by (auto simp add: is_digit_def is_space_def)

lemma numeral_takeWhile [simp]:
  "numeral_str ds \<Longrightarrow> \<not> is_digit c \<Longrightarrow> takeWhile is_digit (ds @ c # r) = ds"
  by (simp add: numeral_str_def list_all_iff takeWhile_append2)

lemma numeral_dropWhile [simp]:
  "numeral_str ds \<Longrightarrow> \<not> is_digit c \<Longrightarrow> dropWhile is_digit (ds @ c # r) = c # r"
  by (simp add: numeral_str_def list_all_iff dropWhile_append2)

lemma numeral_not_Nil [simp]: "numeral_str ds \<Longrightarrow> ds \<noteq> []"
  by (simp add: numeral_str_def)

lemma numeral_space_drop [simp]:
  "numeral_str ds \<Longrightarrow> dropWhile is_space (ds @ r) = ds @ r"
  by (cases ds) (auto simp add: numeral_str_def digit_not_space)

lemma numeral_space_take [simp]:
  "numeral_str ds \<Longrightarrow> takeWhile is_space (ds @ r) = []"
  by (cases ds) (auto simp add: numeral_str_def digit_not_space)

lemma m_index_numeral [simp]:
  "numeral_str n \<Longrightarrow> m_index (CHR '' '' # n @ CHR ''~'' # R) = Some (n, R)"
  by (simp add: m_index_def)

lemma m_index_nonspace: "\<not> is_space c \<Longrightarrow> m_index (c # r) = None"
  by (simp add: m_index_def)

lemma lazy_group_name:
  "f \<noteq> [] \<Longrightarrow> \<not> list_ex is_space f \<Longrightarrow> numeral_str n \<Longrightarrow>
   lazy_group acc (f @ CHR '' '' # n @ CHR ''~'' # R) = Some ((acc @ f, n), R)"
proof (induction f arbitrary: acc)
  case Nil
  then show ?case by simp
next
  case (Cons c f)
  have c: "\<not> is_space c" "\<not> is_line_term c"
    using Cons.prems(2) by (auto simp add: is_space_def is_line_term_def)
  show ?case
  proof (cases f)
    case Nil
    with c Cons.prems show ?thesis by simp
  next
    case (Cons d f')
    then have "\<not> is_space d" using Cons.prems(2) by simp
    then have "m_index (f @ CHR '' '' # n @ CHR ''~'' # R) = None"
      using Cons by (simp add: m_index_nonspace)
    moreover have "lazy_group (acc @ [c]) (f @ CHR '' '' # n @ CHR ''~'' # R)
        = Some (((acc @ [c]) @ f, n), R)"
      using Cons.IH[of "acc @ [c]"] Cons.prems Cons by simp
    ultimately show ?thesis using c by simp
  qed
qed

lemma takeWhile_until: "x \<notin> set xs \<Longrightarrow> takeWhile (\<lambda>c. c \<noteq> x) (xs @ x # r) = xs"
  by (induction xs) auto

lemma dropWhile_until: "x \<notin> set xs \<Longrightarrow> dropWhile (\<lambda>c. c \<noteq> x) (xs @ x # r) = x # r"
  by (induction xs) auto

lemma match_own:
  assumes "well_formed k g"
  shows "pattern k (placeholder k g @ R) = Some (g, R)"
proof -
  obtain co1 co2 where g: "g = (co1, co2)" by (cases g)
  show ?thesis
  proof (cases k)
    case KHour
    with assms g show ?thesis by (simp add: m_literal_def)
  next
    case KDate
    with assms g show ?thesis by (simp add: m_literal_def)
  next
    case KInc
    with assms g show ?thesis by (simp add: m_counter_def)
  next
    case KDec
    with assms g show ?thesis by (simp add: m_counter_def)
  next
    case KBrace
    with assms g have c: "CHR ''}'' \<notin> set co1" "co2 = []" by simp_all
    have "takeWhile (\<lambda>c. c \<noteq> CHR ''}'') (co1 @ CHR ''}'' # CHR ''~'' # R) = co1"
      "dropWhile (\<lambda>c. c \<noteq> CHR ''}'') (co1 @ CHR ''}'' # CHR ''~'' # R) = CHR ''}'' # CHR ''~'' # R"
      using c(1) by (simp_all add: takeWhile_until dropWhile_until)
    with KBrace g c show ?thesis by (simp add: m_brace_def)
  next
    case KPlus
    with assms g show ?thesis by (simp add: m_arith_def)
  next
    case KMinus
    with assms g show ?thesis by (simp add: m_arith_def)
  next
    case KFiles
    with assms g have w: "file_name co1" "numeral_str co2" by simp_all
    then have f: "co1 \<noteq> []" "\<not> list_ex is_space co1" by (simp_all add: file_name_def)
    then obtain c f' where fc: "co1 = c # f'" "\<not> is_space c" by (cases co1) auto
    have 0: "dropWhile is_space (co1 @ CHR '' '' # co2 @ CHR ''~'' # R) = co1 @ CHR '' '' # co2 @ CHR ''~'' # R"
      using fc by simp
    have 1: "takeWhile (\<lambda>c. \<not> is_space c) (co1 @ CHR '' '' # co2 @ CHR ''~'' # R) = co1"
      using f by (simp add: takeWhile_append2 list_ex_iff)
    have 2: "dropWhile (\<lambda>c. \<not> is_space c) (co1 @ CHR '' '' # co2 @ CHR ''~'' # R) = CHR '' '' # co2 @ CHR ''~'' # R"
      using f by (simp add: dropWhile_append2 list_ex_iff)
    show ?thesis
      using KFiles g w f by (simp add: m_files_def 0 1 2)
  next
    case KLines
    with assms g have w: "file_name co1" "numeral_str co2" by simp_all
    then have f: "co1 \<noteq> []" "\<not> list_ex is_space co1" by (simp_all add: file_name_def)
    then obtain c f' where fc: "co1 = c # f'" "\<not> is_space c" by (cases co1) auto
    have "takeWhile is_space (CHR '' '' # co1 @ CHR '' '' # co2 @ CHR ''~'' # R) = '' ''"
      using fc by simp
    then show ?thesis
      using KLines g lazy_group_name[OF f w(2), of "[]" R] by (simp add: m_lazy_def)
  next
    case KWords
    with assms g have w: "file_name co1" "numeral_str co2" by simp_all
    then have f: "co1 \<noteq> []" "\<not> list_ex is_space co1" by (simp_all add: file_name_def)
    then obtain c f' where fc: "co1 = c # f'" "\<not> is_space c" by (cases co1) auto
    have "takeWhile is_space (CHR '' '' # co1 @ CHR '' '' # co2 @ CHR ''~'' # R) = '' ''"
      using fc by simp
    then show ?thesis
      using KWords g lazy_group_name[OF f w(2), of "[]" R] by (simp add: m_lazy_def)
  qed
qed

lemma pattern_tilde: "pattern k s = Some x \<Longrightarrow> \<exists>r. s = CHR ''~'' # r"
  by (cases k)
     (auto simp add: m_literal_def m_counter_def m_brace_def m_arith_def m_files_def m_lazy_def
        strip_prefix_Some split: option.splits if_splits)

lemma strip_tilde_in: "strip_prefix ''~'' t = Some r \<Longrightarrow> CHR ''~'' \<in> set t"
  by (simp add: strip_prefix_Some)

lemma m_index_tilde:
  assumes "m_index s = Some x"
  shows "CHR ''~'' \<in> set s"
proof -
  from assms obtain r where "strip_prefix ''~'' (dropWhile is_digit (dropWhile is_space s)) = Some r"
    by (auto simp add: m_index_def split: option.splits if_splits)
  then have "CHR ''~'' \<in> set (dropWhile is_digit (dropWhile is_space s))"
    by (rule strip_tilde_in)
  then show ?thesis by (blast dest: set_dropWhileD)
qed

lemma lazy_group_tilde: "lazy_group acc s = Some x \<Longrightarrow> CHR ''~'' \<in> set s"
  by (induction acc s rule: lazy_group.induct)
     (auto split: if_splits option.splits dest: m_index_tilde)

lemma after_spaces_tilde: "after_spaces j s = Some x \<Longrightarrow> CHR ''~'' \<in> set s"
  by (induction j s rule: after_spaces.induct)
     (auto split: option.splits dest!: lazy_group_tilde dest: in_set_dropD)

lemma in_dropWhile2: "x \<in> set (dropWhile P (dropWhile Q s)) \<Longrightarrow> x \<in> set s"
  by (blast dest: set_dropWhileD)

lemma closing_needs_tilde:
  assumes "pattern k (CHR ''~'' # post) = Some x"
  shows "CHR ''~'' \<in> set post"
proof (cases k)
  case KHour
  with assms show ?thesis by (auto simp add: m_literal_def strip_prefix_Some split: option.splits)
next
  case KDate
  with assms show ?thesis by (auto simp add: m_literal_def strip_prefix_Some split: option.splits)
next
  case KInc
  with assms obtain r r' where "post = ''inc$'' @ r" "strip_prefix ''~'' (dropWhile is_digit r) = Some r'"
    by (auto simp add: m_counter_def strip_prefix_Some split: option.splits if_splits)
  then show ?thesis by (auto dest!: strip_tilde_in dest: set_dropWhileD)
next
  case KDec
  with assms obtain r r' where "post = ''dec$'' @ r" "strip_prefix ''~'' (dropWhile is_digit r) = Some r'"
    by (auto simp add: m_counter_def strip_prefix_Some split: option.splits if_splits)
  then show ?thesis by (auto dest!: strip_tilde_in dest: set_dropWhileD)
next
  case KBrace
  with assms obtain r r' where "post = ''{'' @ r"
      "dropWhile (\<lambda>c. c \<noteq> CHR ''}'') r = ''}~'' @ r'"
    by (auto simp add: m_brace_def strip_prefix_Some split: option.splits if_splits)
  then have "CHR ''~'' \<in> set (dropWhile (\<lambda>c. c \<noteq> CHR ''}'') r)" by simp
  with \<open>post = ''{'' @ r\<close> show ?thesis by (auto dest: set_dropWhileD)
next
  case KPlus
  with assms obtain r2 r' where
      a: "dropWhile is_space (dropWhile is_digit post) = CHR ''+'' # r2"
      and b: "strip_prefix ''~'' (dropWhile is_digit (dropWhile is_space r2)) = Some r'"
    by (auto simp add: m_arith_def strip_prefix_Some split: option.splits if_splits)
  from b have "CHR ''~'' \<in> set r2" by (auto dest!: strip_tilde_in dest: in_dropWhile2)
  then have "CHR ''~'' \<in> set (dropWhile is_space (dropWhile is_digit post))" using a by simp
  then show ?thesis by (rule in_dropWhile2)
next
  case KMinus
  with assms obtain r2 r' where
      a: "dropWhile is_space (dropWhile is_digit post) = CHR ''-'' # r2"
      and b: "strip_prefix ''~'' (dropWhile is_digit (dropWhile is_space r2)) = Some r'"
    by (auto simp add: m_arith_def strip_prefix_Some split: option.splits if_splits)
  from b have "CHR ''~'' \<in> set r2" by (auto dest!: strip_tilde_in dest: in_dropWhile2)
  then have "CHR ''~'' \<in> set (dropWhile is_space (dropWhile is_digit post))" using a by simp
  then show ?thesis by (rule in_dropWhile2)
next
  case KFiles
  with assms obtain r y where "post = ''files'' @ r"
      "m_index (dropWhile (\<lambda>c. \<not> is_space c) (dropWhile is_space r)) = Some y"
    by (auto simp add: m_files_def strip_prefix_Some split: option.splits if_splits)
  then show ?thesis by (auto dest!: m_index_tilde dest: in_dropWhile2)
next
  case KLines
  with assms obtain r j where "post = ''lines'' @ r" "after_spaces j r = Some x"
    by (auto simp add: m_lazy_def strip_prefix_Some split: option.splits)
  then show ?thesis by (auto dest: after_spaces_tilde)
next
  case KWords
  with assms obtain r j where "post = ''words'' @ r" "after_spaces j r = Some x"
    by (auto simp add: m_lazy_def strip_prefix_Some split: option.splits)
  then show ?thesis by (auto dest: after_spaces_tilde)
qed

lemma closing_fails: "plain post \<Longrightarrow> pattern k (CHR ''~'' # post) = None"
  using closing_needs_tilde[of k post] by (cases "pattern k (CHR ''~'' # post)") (auto simp add: plain_def)

lemma numeral_hd: "numeral_str a \<Longrightarrow> \<exists>d a'. a = d # a' \<and> is_digit d"
  by (cases a) (simp_all add: numeral_str_def)

lemma strip_digit_lead:
  "is_digit d \<Longrightarrow> c \<notin> set ''0123456789'' \<Longrightarrow> strip_prefix (c # p) (d # r) = None"
  by (auto simp add: is_digit_def)

lemma shaped_other_fails:
  assumes "shaped k body" "k' \<noteq> k"
  shows "pattern k' (CHR ''~'' # body @ CHR ''~'' # R) = None"
proof (cases k)
  case KPlus
  with assms obtain a r where a: "numeral_str a" "body = a @ '' + '' @ r"
    by (auto simp add: shaped_def)
  then obtain d a' where d: "a = d # a'" "is_digit d" using numeral_hd by blast
  then have nd: "CHR ''h'' \<noteq> d" "CHR ''d'' \<noteq> d" "CHR ''i'' \<noteq> d" "CHR ''{'' \<noteq> d"
    "CHR ''f'' \<noteq> d" "CHR ''l'' \<noteq> d" "CHR ''w'' \<noteq> d"
    by (auto simp add: is_digit_def)
  have m: "m_arith (CHR ''-'') (CHR ''~'' # a @ '' + '' @ r @ CHR ''~'' # R) = None"
    using a(1) by (simp add: m_arith_def)
  show ?thesis
    using assms(2) KPlus a(2) m
    by (cases k') (simp_all add: m_literal_def m_counter_def m_brace_def m_files_def m_lazy_def d nd)
next
  case KMinus
  with assms consider (num) a r where "numeral_str a" "body = a @ '' - '' @ r"
    | (neg) r where "body = CHR ''-'' # r"
    by (auto simp add: shaped_def prefix_def)
  then show ?thesis
  proof cases
    case num
    then obtain d a' where d: "a = d # a'" "is_digit d" using numeral_hd by blast
    then have nd: "CHR ''h'' \<noteq> d" "CHR ''d'' \<noteq> d" "CHR ''i'' \<noteq> d" "CHR ''{'' \<noteq> d"
      "CHR ''f'' \<noteq> d" "CHR ''l'' \<noteq> d" "CHR ''w'' \<noteq> d"
      by (auto simp add: is_digit_def)
    have m: "m_arith (CHR ''+'') (CHR ''~'' # a @ '' - '' @ r @ CHR ''~'' # R) = None"
      using num(1) by (simp add: m_arith_def)
    show ?thesis
      using assms(2) KMinus num(2) m
      by (cases k') (simp_all add: m_literal_def m_counter_def m_brace_def m_files_def m_lazy_def d nd)
  next
    case neg
    then show ?thesis
      using assms(2) KMinus
      by (cases k') (simp_all add: m_literal_def m_counter_def m_brace_def m_files_def m_lazy_def
          m_arith_def)
  qed
qed (use assms in \<open>cases k'; auto simp add: shaped_def prefix_def m_literal_def m_counter_def
        m_brace_def m_arith_def m_files_def m_lazy_def is_digit_def\<close>)+

subsection \<open>Replacing where nothing or one thing matches\<close>

lemma pattern_Nil [simp]: "pattern k [] = None"
  by (cases k) (simp_all add: m_literal_def m_counter_def m_brace_def m_arith_def m_files_def m_lazy_def)

lemma nomatch_Nil [simp]: "nomatch (pattern k) []"
  by (simp add: nomatch_def)

lemma nomatch_Cons: "nomatch m (c # cs) \<longleftrightarrow> m (c # cs) = None \<and> nomatch m cs"
  by (auto simp add: nomatch_def)

lemma pattern_not_tilde: "c \<noteq> CHR ''~'' \<Longrightarrow> pattern k (c # cs) = None"
  using pattern_tilde[of k "c # cs"] by (cases "pattern k (c # cs)") auto

lemma nomatch_plain: "plain s \<Longrightarrow> nomatch (pattern k) s"
  by (induction s) (auto simp add: nomatch_Cons plain_def pattern_not_tilde)

lemma nomatch_append_plain: "plain a \<Longrightarrow> nomatch (pattern k) s \<Longrightarrow> nomatch (pattern k) (a @ s)"
  by (induction a) (auto simp add: nomatch_Cons plain_def pattern_not_tilde)

lemma nomatch_segment:
  "plain a \<Longrightarrow> pattern k (CHR ''~'' # r) = None \<Longrightarrow> nomatch (pattern k) r \<Longrightarrow>
   nomatch (pattern k) (a @ CHR ''~'' # r)"
  by (intro nomatch_append_plain) (simp_all add: nomatch_Cons)

lemma replace_first_nomatch: "nomatch m s \<Longrightarrow> replace_first m f s = s"
  by (induction s) (auto simp add: nomatch_Cons)

lemma replace_all_nomatch: "nomatch m s \<Longrightarrow> replace_all m f s = s"
  by (induction s) (auto simp add: nomatch_Cons)

lemma substitute_nomatch: "nomatch (pattern k) s \<Longrightarrow> substitute k f s = s"
  by (simp add: substitute_def replace_first_nomatch replace_all_nomatch)

lemma replace_first_skip:
  "plain a \<Longrightarrow> replace_first (pattern k) f (a @ s) = a @ replace_first (pattern k) f s"
  by (induction a) (auto simp add: plain_def pattern_not_tilde)

lemma replace_all_skip:
  "plain a \<Longrightarrow> replace_all (pattern k) f (a @ s) = a @ replace_all (pattern k) f s"
  by (induction a) (auto simp add: plain_def pattern_not_tilde)

lemma replace_first_hit:
  "pattern k s = Some (g, rest) \<Longrightarrow> replace_first (pattern k) f s = f g @ rest"
  by (cases s) simp_all

lemma replace_all_hit:
  "pattern k s = Some (g, rest) \<Longrightarrow> length rest < length s \<Longrightarrow>
   replace_all (pattern k) f s = f g @ replace_all (pattern k) f rest"
  by (cases s) simp_all

lemma placeholder_length: "0 < length (placeholder k g)"
  by (cases k; cases g) simp_all

lemma replace_first_own:
  "well_formed k g \<Longrightarrow> plain a \<Longrightarrow>
   replace_first (pattern k) f (a @ placeholder k g @ R) = a @ f g @ R"
  by (simp add: replace_first_skip replace_first_hit[OF match_own])

lemma replace_all_own:
  "well_formed k g \<Longrightarrow> plain a \<Longrightarrow>
   replace_all (pattern k) f (a @ placeholder k g @ R) = a @ f g @ replace_all (pattern k) f R"
  using placeholder_length[of k g]
  by (simp add: replace_all_skip replace_all_hit[OF match_own])

lemma chain_id:
  "(\<And>k'. k' \<in> set ks \<Longrightarrow> substitute k' (f k') T = T) \<Longrightarrow>
   foldl (\<lambda>s k. substitute k (f k) s) T ks = T"
  by (induction ks) simp_all

lemma chain_one:
  assumes "distinct ks"
    and "\<And>k'. k' \<in> set ks \<Longrightarrow> k' \<noteq> k \<Longrightarrow> substitute k' (f k') T = T"
    and "\<And>k'. k' \<in> set ks \<Longrightarrow> k' \<noteq> k \<Longrightarrow> substitute k' (f k') T' = T'"
    and "substitute k (f k) T = T'"
  shows "foldl (\<lambda>s k. substitute k (f k) s) T ks = (if k \<in> set ks then T' else T)"
  using assms(1,2,3)
proof (induction ks)
  case Nil
  show ?case by simp
next
  case (Cons x ks)
  show ?case
  proof (cases "x = k")
    case True
    then have "k \<notin> set ks" using Cons.prems(1) by simp
    then have "foldl (\<lambda>s k. substitute k (f k) s) T' ks = T'"
      using Cons.prems(3) by (intro chain_id) auto
    with True assms(4) show ?thesis by simp
  next
    case False
    then have "substitute x (f x) T = T" using Cons.prems(2) by simp
    moreover have "foldl (\<lambda>s k. substitute k (f k) s) T ks = (if k \<in> set ks then T' else T)"
      using Cons.prems by (intro Cons.IH) auto
    ultimately show ?thesis using False by simp
  qed
qed

subsection \<open>Plain texts and exact numbers\<close>

lemma plain_Nil [simp]: "plain []"
  by (simp add: plain_def)

lemma plain_Cons [simp]: "plain (c # s) \<longleftrightarrow> c \<noteq> CHR ''~'' \<and> plain s"
  by (auto simp add: plain_def)

lemma plain_append [simp]: "plain (a @ b) \<longleftrightarrow> plain a \<and> plain b"
  by (auto simp add: plain_def)

lemma plain_subset: "set a \<subseteq> set b \<Longrightarrow> plain b \<Longrightarrow> plain a"
  by (auto simp add: plain_def)

lemma digits_plain: "list_all is_digit ds \<Longrightarrow> plain ds"
  by (auto simp add: plain_def list_all_iff)

lemma numeral_plain: "numeral_str ds \<Longrightarrow> plain ds"
  by (simp add: numeral_str_def digits_plain)

lemma plain_dec [simp]: "plain (dec n)"
  by (simp add: digits_plain dec_digits)

lemma numeral_dec [simp]: "numeral_str (dec n)"
  by (simp add: numeral_str_def dec_digits dec_nonempty)

lemma plain_strip_zeros: "plain ds \<Longrightarrow> plain (strip_zeros ds)"
  by (rule plain_subset[of _ ds]) (auto simp add: strip_zeros_def dest: set_dropWhileD)

lemma plain_nat_to_string [simp]: "plain (nat_to_string a)"
proof -
  have "plain (case strip_zeros ds of [] \<Rightarrow> [] | d # rest \<Rightarrow> if rest = [] then [d] else d # CHR ''.'' # rest)"
    if "plain ds" for ds
    using plain_strip_zeros[OF that] by (cases "strip_zeros ds") auto
  then show ?thesis by (simp add: nat_to_string_def Let_def)
qed

lemma plain_js_to_string [simp]: "plain (js_to_string x)"
  by (cases x) simp_all

lemma plain_padStart2: "plain s \<Longrightarrow> plain (padStart2 s)"
  by (auto simp add: padStart2_def plain_def)

lemma plain_getHour [simp]: "plain (getHour e)"
  by (simp add: getHour_def plain_padStart2)

lemma plain_getDate [simp]: "plain (getDate e)"
  by (simp add: getDate_def plain_padStart2)

lemma split_space_nonempty [simp]: "split_space s \<noteq> []"
  by (induction s) (auto split: list.splits)

lemma split_space_chars_Un: "(\<Union>w\<in>set (split_space s). set w) \<subseteq> set s"
proof (induction s)
  case Nil
  show ?case by simp
next
  case (Cons c cs)
  obtain w ws where sp: "split_space cs = w # ws" by (cases "split_space cs") simp_all
  with Cons have "set w \<subseteq> set cs" "(\<Union>v\<in>set ws. set v) \<subseteq> set cs" by auto
  with sp show ?case by auto
qed

lemma split_space_chars: "w \<in> set (split_space s) \<Longrightarrow> set w \<subseteq> set s"
  using split_space_chars_Un[of s] by auto

lemma join_space_chars: "set (join_space ws) \<subseteq> insert (CHR '' '') (\<Union> (set ` set ws))"
  by (induction ws rule: join_space.induct) auto

lemma plain_hd_split: "plain s \<Longrightarrow> plain (hd (split_space s))"
  using split_space_chars[of "hd (split_space s)" s] by (auto intro: plain_subset)

lemma plain_join_split: "plain s \<Longrightarrow> plain (join_space (drop n (split_space s)))"
proof -
  assume p: "plain s"
  have "set (join_space (drop n (split_space s))) \<subseteq> insert (CHR '' '') (set s)"
    using join_space_chars[of "drop n (split_space s)"] split_space_chars[of _ s]
    by (fastforce dest: in_set_dropD)
  with p show ?thesis by (auto simp add: plain_def)
qed

lemma plain_first_split: "plain s \<Longrightarrow> plain (concat (take 1 (split_space s)))"
  using plain_hd_split[of s] by (cases "split_space s") simp_all

lemma parseInt_numeral: "numeral_str p \<Longrightarrow> parseInt p = round_double (int (digits_val p))"
proof -
  assume n: "numeral_str p"
  then obtain d p' where p: "p = d # p'" "is_digit d" using numeral_hd by blast
  then have d: "\<not> is_space d" "d \<noteq> CHR ''-''" "d \<noteq> CHR ''+''"
    by (auto simp add: is_digit_def is_space_def)
  have "takeWhile is_digit p = p" using n by (simp add: numeral_str_def list_all_iff)
  then show ?thesis using p(1) d n unfolding parseInt_def Let_def by simp
qed

lemma js_to_string_small: "n < 2 ^ 53 \<Longrightarrow> js_to_string (Fin (int n)) = dec n"
  by (simp add: nat_to_string_small)

lemma js_to_string_exact: "n \<le> 2 ^ 53 \<Longrightarrow> js_to_string (round_double (int n)) = dec n"
proof (cases "n < 2 ^ 53")
  case True
  then show ?thesis by (simp add: round_double_small nat_to_string_small)
next
  case False
  assume "n \<le> 2 ^ 53"
  with False have "n = 9007199254740992" by simp
  then show ?thesis by (simp add: round_double_2_53 nat_to_string_2_53 dec_2_53)
qed

lemma js_to_string_neg: "0 < n \<Longrightarrow> n < 2 ^ 53 \<Longrightarrow> js_to_string (Fin (- int n)) = CHR ''-'' # dec n"
  by (simp add: nat_to_string_small)

subsection \<open>What a placeholder looks like to the other kinds\<close>

lemma file_name_plain: "file_name f \<Longrightarrow> plain f"
  by (simp add: file_name_def)

lemma placeholder_body:
  assumes "well_formed k g"
  shows "\<exists>B. placeholder k g = CHR ''~'' # B @ ''~'' \<and> plain B \<and> shaped k B"
proof -
  obtain co1 co2 where g: "g = (co1, co2)" by (cases g)
  show ?thesis
  proof (cases k)
    case KPlus
    with assms g have "placeholder k g = CHR ''~'' # (co1 @ '' + '' @ co2) @ ''~''"
      "plain (co1 @ '' + '' @ co2)" "shaped k (co1 @ '' + '' @ co2)"
      by (auto simp add: shaped_def numeral_plain)
    then show ?thesis by blast
  next
    case KMinus
    with assms g have "placeholder k g = CHR ''~'' # (co1 @ '' - '' @ co2) @ ''~''"
      "plain (co1 @ '' - '' @ co2)" "shaped k (co1 @ '' - '' @ co2)"
      by (auto simp add: shaped_def numeral_plain)
    then show ?thesis by blast
  next
    case KHour
    with g have "placeholder k g = CHR ''~'' # ''hour'' @ ''~''" by simp
    with KHour show ?thesis by (auto simp add: shaped_def)
  next
    case KDate
    with g have "placeholder k g = CHR ''~'' # ''date'' @ ''~''" by simp
    with KDate show ?thesis by (auto simp add: shaped_def)
  next
    case KInc
    with assms g have "placeholder k g = CHR ''~'' # (''inc$'' @ co1) @ ''~''"
      "plain (''inc$'' @ co1)" "shaped k (''inc$'' @ co1)"
      by (auto simp add: shaped_def numeral_plain)
    then show ?thesis by blast
  next
    case KDec
    with assms g have "placeholder k g = CHR ''~'' # (''dec$'' @ co1) @ ''~''"
      "plain (''dec$'' @ co1)" "shaped k (''dec$'' @ co1)"
      by (auto simp add: shaped_def numeral_plain)
    then show ?thesis by blast
  next
    case KBrace
    with assms g have "placeholder k g = CHR ''~'' # (''{'' @ co1 @ ''}'') @ ''~''"
      "plain (''{'' @ co1 @ ''}'')" "shaped k (''{'' @ co1 @ ''}'')"
      by (auto simp add: shaped_def)
    then show ?thesis by blast
  next
    case KFiles
    with assms g have "placeholder k g = CHR ''~'' # (''files '' @ co1 @ '' '' @ co2) @ ''~''"
      "plain (''files '' @ co1 @ '' '' @ co2)" "shaped k (''files '' @ co1 @ '' '' @ co2)"
      by (auto simp add: shaped_def numeral_plain file_name_plain)
    then show ?thesis by blast
  next
    case KLines
    with assms g have "placeholder k g = CHR ''~'' # (''lines '' @ co1 @ '' '' @ co2) @ ''~''"
      "plain (''lines '' @ co1 @ '' '' @ co2)" "shaped k (''lines '' @ co1 @ '' '' @ co2)"
      by (auto simp add: shaped_def numeral_plain file_name_plain)
    then show ?thesis by blast
  next
    case KWords
    with assms g have "placeholder k g = CHR ''~'' # (''words '' @ co1 @ '' '' @ co2) @ ''~''"
      "plain (''words '' @ co1 @ '' '' @ co2)" "shaped k (''words '' @ co1 @ '' '' @ co2)"
      by (auto simp add: shaped_def numeral_plain file_name_plain)
    then show ?thesis by blast
  qed
qed

text \<open>In the exact range a sum and a difference are written as they are in arithmetic.\<close>

lemma next_plus:
  assumes "numeral_str a" "numeral_str b" "digits_val a + digits_val b < 2 ^ 53"
  shows "js_to_string (js_add (parseInt a) (parseInt b)) = dec (digits_val a + digits_val b)"
proof -
  have "digits_val a < 2 ^ 53" "digits_val b < 2 ^ 53" using assms(3) by simp_all
  then have "parseInt a = Fin (int (digits_val a))" "parseInt b = Fin (int (digits_val b))"
    using assms(1,2) by (simp_all add: parseInt_numeral round_double_small)
  then have "js_add (parseInt a) (parseInt b) = round_double (int (digits_val a + digits_val b))"
    by simp
  moreover have "js_to_string (round_double (int (digits_val a + digits_val b)))
      = dec (digits_val a + digits_val b)"
    using assms(3) by (intro js_to_string_exact) simp
  ultimately show ?thesis by (simp only:)
qed

lemma next_minus:
  assumes "numeral_str a" "numeral_str b" "digits_val a < 2 ^ 53" "digits_val b < 2 ^ 53"
  shows "js_to_string (js_sub (parseInt a) (parseInt b))
           = (if digits_val a < digits_val b then CHR ''-'' # dec (digits_val b - digits_val a)
              else dec (digits_val a - digits_val b))"
proof -
  have p: "parseInt a = Fin (int (digits_val a))" "parseInt b = Fin (int (digits_val b))"
    using assms by (simp_all add: parseInt_numeral round_double_small)
  have r: "round_double (int (digits_val a) - int (digits_val b)) = Fin (int (digits_val a) - int (digits_val b))"
    using assms(3,4) by (intro round_double_small) (simp add: abs_if)
  have s: "js_sub (parseInt a) (parseInt b) = Fin (int (digits_val a) - int (digits_val b))"
    unfolding p js_sub_def using r by simp
  show ?thesis
  proof (cases "digits_val a < digits_val b")
    case True
    then have e: "int (digits_val a) - int (digits_val b) = - int (digits_val b - digits_val a)" by simp
    have "0 < digits_val b - digits_val a" "digits_val b - digits_val a < 2 ^ 53"
      using True assms(4) by simp_all
    then have "js_to_string (Fin (- int (digits_val b - digits_val a)))
        = CHR ''-'' # dec (digits_val b - digits_val a)"
      by (rule js_to_string_neg)
    then show ?thesis unfolding s e using True by (simp only: if_True)
  next
    case False
    then have e: "int (digits_val a) - int (digits_val b) = int (digits_val a - digits_val b)" by simp
    have "digits_val a - digits_val b < 2 ^ 53" using assms(3) by simp
    then have "js_to_string (Fin (int (digits_val a - digits_val b))) = dec (digits_val a - digits_val b)"
      by (rule js_to_string_small)
    then show ?thesis unfolding s e using False by (simp only: if_False)
  qed
qed

lemma shaped_plusI: "numeral_str a \<Longrightarrow> shaped KPlus (a @ '' + '' @ r)"
  unfolding shaped_def by (simp only: kind.case) blast

lemma shaped_minusI: "numeral_str a \<Longrightarrow> shaped KMinus (a @ '' - '' @ r)"
  unfolding shaped_def by (simp only: kind.case) blast

lemma next_body:
  assumes "well_formed k g"
  shows "\<exists>B. next_cb k g = CHR ''~'' # B @ ''~'' \<and> plain B \<and> shaped k B"
proof -
  obtain co1 co2 where g: "g = (co1, co2)" by (cases g)
  show ?thesis
  proof (cases k)
    case KPlus
    let ?B = "dec (digits_val co1 + digits_val co2) @ '' + '' @ co2"
    from KPlus assms g have "next_cb k g = CHR ''~'' # ?B @ ''~''" "plain ?B"
      by (auto simp add: numeral_plain next_plus)
    moreover have "shaped k ?B" unfolding KPlus by (rule shaped_plusI) simp
    ultimately show ?thesis by blast
  next
    case KMinus
    let ?n = "if digits_val co1 < digits_val co2 then CHR ''-'' # dec (digits_val co2 - digits_val co1)
              else dec (digits_val co1 - digits_val co2)"
    let ?B = "?n @ '' - '' @ co2"
    from KMinus assms g have w: "numeral_str co1" "numeral_str co2" "digits_val co1 < 2 ^ 53"
      "digits_val co2 < 2 ^ 53" by simp_all
    have 1: "next_cb k g = CHR ''~'' # ?B @ ''~''"
      using KMinus g next_minus[OF w] by simp
    have 2: "plain ?B" using w by (simp add: numeral_plain)
    have 3: "shaped k ?B"
    proof (cases "digits_val co1 < digits_val co2")
      case True
      with KMinus show ?thesis by (simp add: shaped_def)
    next
      case False
      then have "?B = dec (digits_val co1 - digits_val co2) @ '' - '' @ co2" by simp
      then show ?thesis unfolding KMinus by (simp only:) (rule shaped_minusI, simp)
    qed
    from 1 2 3 show ?thesis by blast
  next
    case KHour
    with g have "next_cb k g = CHR ''~'' # ''hour'' @ ''~''" by simp
    with KHour show ?thesis by (auto simp add: shaped_def)
  next
    case KDate
    with g have "next_cb k g = CHR ''~'' # ''date'' @ ''~''" by simp
    with KDate show ?thesis by (auto simp add: shaped_def)
  next
    case KInc
    let ?B = "''inc$'' @ js_to_string (js_add (parseInt co1) (Fin 1))"
    from KInc g have "next_cb k g = CHR ''~'' # ?B @ ''~''" "plain ?B" "shaped k ?B"
      by (auto simp add: shaped_def)
    then show ?thesis by blast
  next
    case KDec
    let ?B = "''dec$'' @ js_to_string (js_sub (parseInt co1) (Fin 1))"
    from KDec g have "next_cb k g = CHR ''~'' # ?B @ ''~''" "plain ?B" "shaped k ?B"
      by (auto simp add: shaped_def)
    then show ?thesis by blast
  next
    case KBrace
    let ?B = "''{'' @ join_space (drop 1 (split_space co1)) @ '' ''
       @ concat (take 1 (split_space co1)) @ ''}''"
    from KBrace assms g have "plain co1" by simp
    then have "plain ?B" using plain_join_split[of co1 1] plain_first_split[of co1] by simp
    moreover from KBrace g have "next_cb k g = CHR ''~'' # ?B @ ''~''" "shaped k ?B"
      by (auto simp add: shaped_def)
    ultimately show ?thesis by blast
  next
    case KFiles
    let ?B = "''files '' @ co1 @ '' '' @ js_to_string (js_add (parseInt co2) (Fin 1))"
    from KFiles assms g have "next_cb k g = CHR ''~'' # ?B @ ''~''" "plain ?B" "shaped k ?B"
      by (auto simp add: shaped_def file_name_plain)
    then show ?thesis by blast
  next
    case KLines
    let ?B = "''lines '' @ co1 @ '' '' @ js_to_string (js_add (parseInt co2) (Fin 1))"
    from KLines assms g have "next_cb k g = CHR ''~'' # ?B @ ''~''" "plain ?B" "shaped k ?B"
      by (auto simp add: shaped_def file_name_plain)
    then show ?thesis by blast
  next
    case KWords
    let ?B = "''words '' @ co1 @ '' '' @ js_to_string (js_add (parseInt co2) (Fin 1))"
    from KWords assms g have "next_cb k g = CHR ''~'' # ?B @ ''~''" "plain ?B" "shaped k ?B"
      by (auto simp add: shaped_def file_name_plain)
    then show ?thesis by blast
  qed
qed

lemma value_plain:
  assumes "well_formed k g" "k \<notin> {KFiles, KLines, KWords}"
  shows "plain (value_cb e k g)"
proof -
  obtain co1 co2 where g: "g = (co1, co2)" by (cases g)
  with assms show ?thesis
    by (cases k) (simp_all add: plain_hd_split numeral_plain)
qed

lemma quiet1:
  assumes "plain a" "plain B" "plain post" "shaped k B" "k' \<noteq> k"
  shows "nomatch (pattern k') (a @ CHR ''~'' # B @ CHR ''~'' # post)"
  using assms
  by (intro nomatch_segment shaped_other_fails closing_fails nomatch_plain)

subsection \<open>The chains on a template with one placeholder\<close>

lemma substitute_own:
  assumes "well_formed k g" "plain a" "plain post"
  shows "substitute k f (a @ placeholder k g @ post) = a @ f g @ post"
proof (cases "global k")
  case False
  then show ?thesis using assms by (simp add: substitute_def replace_first_own)
next
  case True
  have "replace_all (pattern k) f post = post"
    using assms(3) by (intro replace_all_nomatch nomatch_plain)
  with True show ?thesis using assms by (simp add: substitute_def replace_all_own)
qed

lemma all_kinds: "k \<in> set [KHour, KDate, KInc, KDec, KBrace, KPlus, KMinus, KFiles, KLines, KWords]"
  by (cases k) simp_all

lemma one_expand:
  assumes wf: "well_formed k g" and pre: "plain pre" and post: "plain post"
    and v: "plain (value_cb e k g)"
  shows "expand e (pre @ placeholder k g @ post) = pre @ value_cb e k g @ post"
proof -
  obtain B where B: "placeholder k g = CHR ''~'' # B @ ''~''" "plain B" "shaped k B"
    using placeholder_body[OF wf] by blast
  let ?T = "pre @ placeholder k g @ post"
  let ?T' = "pre @ value_cb e k g @ post"
  have T: "?T = pre @ CHR ''~'' # B @ CHR ''~'' # post" by (simp add: B(1))
  have before: "substitute k' (value_cb e k') ?T = ?T" if "k' \<noteq> k" for k'
    unfolding T using pre B(2) post B(3) that by (intro substitute_nomatch quiet1)
  have after: "substitute k' (value_cb e k') ?T' = ?T'" for k'
    using pre post v by (intro substitute_nomatch nomatch_plain) simp
  have step: "substitute k (value_cb e k) ?T = ?T'"
    using wf pre post by (rule substitute_own)
  have "foldl (\<lambda>s k. substitute k (value_cb e k) s) ?T
          [KHour, KDate, KInc, KDec, KBrace, KPlus, KMinus, KFiles, KLines, KWords]
        = (if k \<in> set [KHour, KDate, KInc, KDec, KBrace, KPlus, KMinus, KFiles, KLines, KWords]
           then ?T' else ?T)"
    by (rule chain_one) (simp_all add: before after step)
  then show ?thesis unfolding expand_def using all_kinds[of k] by (simp only: if_True)
qed

lemma one_advance:
  assumes wf: "well_formed k g" and pre: "plain pre" and post: "plain post"
  shows "advance (pre @ placeholder k g @ post) = pre @ next_cb k g @ post"
proof -
  obtain B where B: "placeholder k g = CHR ''~'' # B @ ''~''" "plain B" "shaped k B"
    using placeholder_body[OF wf] by blast
  obtain N where N: "next_cb k g = CHR ''~'' # N @ ''~''" "plain N" "shaped k N"
    using next_body[OF wf] by blast
  let ?T = "pre @ placeholder k g @ post"
  let ?T' = "pre @ next_cb k g @ post"
  have T: "?T = pre @ CHR ''~'' # B @ CHR ''~'' # post" by (simp add: B(1))
  have T': "?T' = pre @ CHR ''~'' # N @ CHR ''~'' # post" by (simp add: N(1))
  have before: "substitute k' (next_cb k') ?T = ?T" if "k' \<noteq> k" for k'
    unfolding T using pre B(2) post B(3) that by (intro substitute_nomatch quiet1)
  have after: "substitute k' (next_cb k') ?T' = ?T'" if "k' \<noteq> k" for k'
    unfolding T' using pre N(2) post N(3) that by (intro substitute_nomatch quiet1)
  have step: "substitute k (next_cb k) ?T = ?T'"
    using wf pre post by (rule substitute_own)
  have fold: "foldl (\<lambda>s k. substitute k (next_cb k) s) ?T
          [KInc, KDec, KBrace, KPlus, KMinus, KFiles, KLines, KWords]
        = (if k \<in> set [KInc, KDec, KBrace, KPlus, KMinus, KFiles, KLines, KWords]
           then ?T' else ?T)"
    by (rule chain_one) (simp_all add: before after step)
  have same: "?T = ?T'" if "k \<notin> set [KInc, KDec, KBrace, KPlus, KMinus, KFiles, KLines, KWords]"
    using that by (cases k; cases g) simp_all
  show ?thesis
  proof (cases "k \<in> set [KInc, KDec, KBrace, KPlus, KMinus, KFiles, KLines, KWords]")
    case True
    with fold show ?thesis unfolding advance_def by (simp only: if_True)
  next
    case False
    with fold same[OF False] show ?thesis unfolding advance_def by (simp only: if_False)
  qed
qed

subsection \<open>Placeholders that no expression matches\<close>

lemma dead_fails:
  assumes "prefix ''dec$-'' B \<or> prefix ''-'' B"
  shows "pattern k (CHR ''~'' # B @ R) = None"
proof -
  have nd: "\<not> is_digit (CHR ''d'')" by (simp add: is_digit_def)
  from assms consider r where "B = ''dec$-'' @ r" | r where "B = CHR ''-'' # r"
    by (auto simp add: prefix_def)
  then show ?thesis
  proof cases
    case 1
    then show ?thesis
      by (cases k)
         (simp_all add: m_literal_def m_counter_def m_brace_def m_arith_def m_files_def
            m_lazy_def nd)
  next
    case 2
    then show ?thesis
      by (cases k)
         (simp_all add: m_literal_def m_counter_def m_brace_def m_arith_def m_files_def
            m_lazy_def)
  qed
qed

lemma dead_template:
  assumes "prefix ''dec$-'' B \<or> prefix ''-'' B" "plain pre" "plain B" "plain post"
  shows "expand e (pre @ CHR ''~'' # B @ CHR ''~'' # post) = pre @ CHR ''~'' # B @ CHR ''~'' # post"
    and "advance (pre @ CHR ''~'' # B @ CHR ''~'' # post) = pre @ CHR ''~'' # B @ CHR ''~'' # post"
proof -
  have q: "nomatch (pattern k) (pre @ CHR ''~'' # B @ CHR ''~'' # post)" for k
    using assms by (intro nomatch_segment dead_fails closing_fails nomatch_plain)
  show "expand e (pre @ CHR ''~'' # B @ CHR ''~'' # post) = pre @ CHR ''~'' # B @ CHR ''~'' # post"
    unfolding expand_def by (intro chain_id substitute_nomatch q)
  show "advance (pre @ CHR ''~'' # B @ CHR ''~'' # post) = pre @ CHR ''~'' # B @ CHR ''~'' # post"
    unfolding advance_def by (intro chain_id substitute_nomatch q)
qed

subsection \<open>Counters in the exact range, and at its end\<close>

lemma funpow_fixed: "f x = x \<Longrightarrow> (f ^^ n) x = x"
  by (induction n) simp_all

lemma dec_0: "dec 0 = ''0''" and dec_1: "dec 1 = ''1''"
  by (simp_all add: dec.simps digit_char_def)

lemmas dec_Suc_0 = dec_1 [unfolded One_nat_def]

lemma value_counter:
  "N \<le> 2 ^ 53 \<Longrightarrow> js_to_string (parseInt (dec N)) = dec N"
  by (simp add: parseInt_numeral digits_val_dec js_to_string_exact)

lemma next_inc:
  assumes "N < 2 ^ 53"
  shows "js_to_string (js_add (parseInt (dec N)) (Fin 1)) = dec (N + 1)"
proof -
  have "parseInt (dec N) = Fin (int N)"
    using assms by (simp add: parseInt_numeral digits_val_dec round_double_small)
  then have "js_add (parseInt (dec N)) (Fin 1) = round_double (int (N + 1))"
    by (simp add: add.commute)
  moreover have "js_to_string (round_double (int (N + 1))) = dec (N + 1)"
    using assms by (intro js_to_string_exact) simp
  ultimately show ?thesis by (simp only:)
qed

lemma next_dec:
  assumes "N < 2 ^ 53"
  shows "js_to_string (js_sub (parseInt (dec N)) (Fin 1)) = (if N = 0 then ''-1'' else dec (N - 1))"
proof -
  have p: "parseInt (dec N) = Fin (int N)"
    using assms by (simp add: parseInt_numeral digits_val_dec round_double_small)
  show ?thesis
  proof (cases "N = 0")
    case True
    have "js_sub (parseInt (dec N)) (Fin 1) = Fin (- int 1)"
      unfolding p js_sub_def using True by (simp add: round_double_small)
    moreover have "js_to_string (Fin (- int 1)) = CHR ''-'' # dec 1"
      by (rule js_to_string_neg) simp_all
    ultimately have "js_to_string (js_sub (parseInt (dec N)) (Fin 1)) = CHR ''-'' # dec 1"
      by (simp only:)
    then show ?thesis unfolding dec_1 by (simp only: True if_True simp_thms)
  next
    case False
    then have e: "int N - 1 = int (N - 1)" by simp
    have lt: "N - 1 < 2 ^ 53" using assms by simp
    have "round_double (int N - 1) = Fin (int N - 1)"
      using assms by (intro round_double_small) simp
    then have "js_sub (parseInt (dec N)) (Fin 1) = Fin (int N - 1)"
      unfolding p js_sub_def by simp
    then have "js_sub (parseInt (dec N)) (Fin 1) = Fin (int (N - 1))"
      unfolding e .
    moreover have "js_to_string (Fin (int (N - 1))) = dec (N - 1)"
      using lt by (rule js_to_string_small)
    ultimately show ?thesis using False by (simp only: if_False)
  qed
qed

lemma parse_2_53: "parseInt ''9007199254740992'' = Fin 9007199254740992"
  by (simp add: parseInt_def is_space_def is_digit_def digits_val_def digit_val_def Let_def
      round_double_2_53)

lemma round_2_53_1: "round_double 9007199254740993 = Fin 9007199254740992"
  by (simp add: round_double_54)


lemma dead_nomatch:
  assumes "prefix ''dec$-'' B \<or> prefix ''-'' B" "plain pre" "plain B" "plain post"
  shows "nomatch (pattern k) (pre @ CHR ''~'' # B @ CHR ''~'' # post)"
  using assms by (intro nomatch_segment dead_fails closing_fails nomatch_plain)

subsection \<open>Bracket lists of two or more tokens\<close>

lemma split_space_word: "CHR '' '' \<notin> set w \<Longrightarrow> split_space w = [w]"
  by (induction w) auto

lemma split_space_append:
  "CHR '' '' \<notin> set w \<Longrightarrow> split_space (w @ CHR '' '' # r) = w # split_space r"
  by (induction w) auto

lemma split_join:
  "ts \<noteq> [] \<Longrightarrow> list_all (\<lambda>t. CHR '' '' \<notin> set t) ts \<Longrightarrow> split_space (join_space ts) = ts"
  by (induction ts rule: join_space.induct) (simp_all add: split_space_word split_space_append)

lemma join_space_snoc: "ts \<noteq> [] \<Longrightarrow> join_space (ts @ [t]) = join_space ts @ CHR '' '' # t"
  by (induction ts rule: join_space.induct) simp_all

lemma join_space_set: "set (join_space ts) \<subseteq> insert (CHR '' '') (\<Union>t\<in>set ts. set t)"
  using join_space_chars by simp

text \<open>
  A bracket list of two or more tokens, none of which has a space, a closing brace
  or a tilde, is worth its first token and is stored rotated to the left.
\<close>

lemma bracket_rotation:
  assumes "plain pre" and "plain post" and "2 \<le> length ts"
    and "list_all (\<lambda>t. CHR '' '' \<notin> set t \<and> CHR ''}'' \<notin> set t \<and> plain t) ts"
  shows "expand e (pre @ ''~{'' @ join_space ts @ ''}~'' @ post) = pre @ hd ts @ post"
    and "advance (pre @ ''~{'' @ join_space ts @ ''}~'' @ post)
           = pre @ ''~{'' @ join_space (tl ts @ [hd ts]) @ ''}~'' @ post"
proof -
  obtain t u us where ts: "ts = t # u # us"
    using assms(3) by (cases ts; cases "tl ts") auto
  have ns: "list_all (\<lambda>t. CHR '' '' \<notin> set t) ts"
    using assms(4) by (simp add: list_all_iff)
  have sj: "split_space (join_space ts) = ts"
    using ns ts by (intro split_join) simp_all
  have chars: "set (join_space ts) \<subseteq> insert (CHR '' '') (\<Union>t\<in>set ts. set t)"
    by (rule join_space_set)
  have pj: "plain (join_space ts)" "CHR ''}'' \<notin> set (join_space ts)"
    using chars assms(4) by (auto simp add: plain_def list_all_iff)
  then have wf: "well_formed KBrace (join_space ts, [])" by simp
  have pt: "plain t" using assms(4) ts by simp
  have "plain (value_cb e KBrace (join_space ts, []))"
    unfolding value_cb.simps sj using pt ts by simp
  with wf assms(1,2) have "expand e (pre @ placeholder KBrace (join_space ts, []) @ post)
          = pre @ value_cb e KBrace (join_space ts, []) @ post"
    by (rule one_expand)
  then show "expand e (pre @ ''~{'' @ join_space ts @ ''}~'' @ post) = pre @ hd ts @ post"
    by (simp add: sj)
  have "advance (pre @ placeholder KBrace (join_space ts, []) @ post)
          = pre @ next_cb KBrace (join_space ts, []) @ post"
    using wf assms(1,2) by (rule one_advance)
  moreover have "join_space (tl ts @ [hd ts]) = join_space (tl ts) @ CHR '' '' # hd ts"
    using ts by (intro join_space_snoc) simp
  moreover have "split_space (join_space (t # u # us)) = t # u # us"
    using sj unfolding ts .
  ultimately show "advance (pre @ ''~{'' @ join_space ts @ ''}~'' @ post)
           = pre @ ''~{'' @ join_space (tl ts @ [hd ts]) @ ''}~'' @ post"
    unfolding ts by (simp del: join_space.simps)
qed

lemma bracket_rotation_abc:
  "expand env0 ''~{a b c}~'' = ''a'' \<and> advance ''~{a b c}~'' = ''~{b c a}~''"
  using bracket_rotation(1) [of "[]" "[]" "[''a'', ''b'', ''c'']" env0]
    bracket_rotation(2) [of "[]" "[]" "[''a'', ''b'', ''c'']"] by simp

subsection \<open>The chains on a template with several placeholders\<close>

lemma gap_plain: "gap sep \<Longrightarrow> plain sep"
  by (simp add: gap_def)

lemma gap_fails:
  assumes "gap sep"
  shows "pattern k (CHR ''~'' # sep @ R) = None"
proof -
  from assms obtain c m where s: "sep = c # m" and c: "c \<notin> set ''hdi{flw0123456789''"
    by (cases sep) (auto simp add: gap_def)
  from c have "\<not> is_digit c" by (simp add: is_digit_def)
  moreover from c have "CHR ''h'' \<noteq> c" "CHR ''d'' \<noteq> c" "CHR ''i'' \<noteq> c" "CHR ''{'' \<noteq> c"
    "CHR ''f'' \<noteq> c" "CHR ''l'' \<noteq> c" "CHR ''w'' \<noteq> c" by auto
  ultimately show ?thesis using s
    by (cases k) (simp_all add: m_literal_def m_counter_def m_brace_def m_arith_def m_files_def
        m_lazy_def)
qed

lemma double_tilde_fails: "pattern k (CHR ''~'' # CHR ''~'' # R) = None"
  by (cases k) (simp_all add: m_literal_def m_counter_def m_brace_def m_arith_def m_files_def
        m_lazy_def)

lemma seps_ok_tail: "seps_ok (x # rest) \<Longrightarrow> seps_ok rest"
  by (cases x; cases rest) (auto simp add: gap_plain)

lemma placeholder_body_of: "well_formed k g \<Longrightarrow> body_of k (placeholder k g)"
  unfolding body_of_def by (rule placeholder_body)

lemma body_fails: "body_of k' X \<Longrightarrow> pattern k (CHR ''~'' # X @ R) = None"
  by (auto simp add: body_of_def double_tilde_fails)

text \<open>Behind a placeholder that has not been replaced by a plain text, nothing begins at
  its closing tilde.\<close>

lemma tail_fails:
  assumes so: "seps_ok ((sep, k', g) # rest)" and post: "plain post"
    and al: "list_all (\<lambda>(sep, k, g). well_formed k g \<and> (if b then plain (f k g) else body_of k (f k g))) rest"
    and here: "\<not> b \<or> \<not> (k' \<in> set ks \<and> (global k' \<or> k' \<notin> set seen))"
  shows "pattern k (CHR ''~'' # pass f ks (k' # seen) rest @ post) = None"
proof (cases rest)
  case Nil
  then show ?thesis using post by (simp add: closing_fails)
next
  case (Cons y ys)
  obtain sep2 k2 g2 where y: "y = (sep2, k2, g2)" by (cases y)
  from so Cons y have "gap sep2 \<or> sep2 = [] \<and> k2 = k'" by simp
  then show ?thesis
  proof
    assume "gap sep2"
    then show ?thesis using Cons y by (simp add: gap_fails)
  next
    assume "sep2 = [] \<and> k2 = k'"
    with y have y': "y = ([], k', g2)" by simp
    from al Cons y' have wf: "well_formed k' g2" 
      and fb: "if b then plain (f k' g2) else body_of k' (f k' g2)" by simp_all
    let ?X = "if k' \<in> set ks \<and> (global k' \<or> k' \<notin> set (k' # seen)) then f k' g2 else placeholder k' g2"
    have "body_of k' ?X"
    proof (cases b)
      case True
      with here have "\<not> (k' \<in> set ks \<and> (global k' \<or> k' \<notin> set (k' # seen)))" by auto
      then have "?X = placeholder k' g2" by (rule if_not_P)
      then show ?thesis using wf by (simp only: placeholder_body_of)
    next
      case False
      with fb wf show ?thesis by (simp add: placeholder_body_of)
    qed
    then have "pattern k (CHR ''~'' # ?X @ (pass f ks (k' # k' # seen) ys @ post)) = None"
      by (rule body_fails)
    then show ?thesis unfolding Cons y' by (simp only: pass.simps append_Nil append_assoc)
  qed
qed

lemma skip_body_first:
  assumes "plain sep" and "body_of k' X" and "k \<noteq> k'"
    and "pattern k (CHR ''~'' # tail) = None"
  shows "replace_first (pattern k) F (sep @ X @ tail) = sep @ X @ replace_first (pattern k) F tail"
proof -
  from assms(2) obtain B where B: "X = CHR ''~'' # B @ ''~''" "plain B" "shaped k' B"
    unfolding body_of_def by blast
  have 1: "pattern k (CHR ''~'' # B @ CHR ''~'' # tail) = None"
    using B(3) assms(3) by (rule shaped_other_fails)
  have "replace_first (pattern k) F (sep @ X @ tail)
          = sep @ replace_first (pattern k) F (CHR ''~'' # B @ CHR ''~'' # tail)"
    using assms(1) by (simp add: replace_first_skip B(1))
  also have "replace_first (pattern k) F (CHR ''~'' # B @ CHR ''~'' # tail)
          = CHR ''~'' # replace_first (pattern k) F (B @ CHR ''~'' # tail)"
    using 1 by simp
  also have "replace_first (pattern k) F (B @ CHR ''~'' # tail)
          = B @ replace_first (pattern k) F (CHR ''~'' # tail)"
    using B(2) by (rule replace_first_skip)
  also have "replace_first (pattern k) F (CHR ''~'' # tail) = CHR ''~'' # replace_first (pattern k) F tail"
    using assms(4) by simp
  finally show ?thesis by (simp add: B(1))
qed

lemma skip_plain_first:
  assumes "plain sep" and "plain X"
  shows "replace_first (pattern k) F (sep @ X @ tail) = sep @ X @ replace_first (pattern k) F tail"
  using replace_first_skip[of "sep @ X" k F tail] assms by simp

lemma skip_body_all:
  assumes "plain sep" and "body_of k' X" and "k \<noteq> k'"
    and "pattern k (CHR ''~'' # tail) = None"
  shows "replace_all (pattern k) F (sep @ X @ tail) = sep @ X @ replace_all (pattern k) F tail"
proof -
  from assms(2) obtain B where B: "X = CHR ''~'' # B @ ''~''" "plain B" "shaped k' B"
    unfolding body_of_def by blast
  have 1: "pattern k (CHR ''~'' # B @ CHR ''~'' # tail) = None"
    using B(3) assms(3) by (rule shaped_other_fails)
  have "replace_all (pattern k) F (sep @ X @ tail)
          = sep @ replace_all (pattern k) F (CHR ''~'' # B @ CHR ''~'' # tail)"
    using assms(1) by (simp add: replace_all_skip B(1))
  also have "replace_all (pattern k) F (CHR ''~'' # B @ CHR ''~'' # tail)
          = CHR ''~'' # replace_all (pattern k) F (B @ CHR ''~'' # tail)"
    using 1 by simp
  also have "replace_all (pattern k) F (B @ CHR ''~'' # tail)
          = B @ replace_all (pattern k) F (CHR ''~'' # tail)"
    using B(2) by (rule replace_all_skip)
  also have "replace_all (pattern k) F (CHR ''~'' # tail) = CHR ''~'' # replace_all (pattern k) F tail"
    using assms(4) by simp
  finally show ?thesis by (simp add: B(1))
qed

lemma skip_plain_all:
  assumes "plain sep" and "plain X"
  shows "replace_all (pattern k) F (sep @ X @ tail) = sep @ X @ replace_all (pattern k) F tail"
  using replace_all_skip[of "sep @ X" k F tail] assms by simp

lemma pass_seen:
  "\<not> global k \<Longrightarrow> k \<in> set seen \<Longrightarrow> pass f (k # ks) seen items = pass f ks seen items"
  by (induction items arbitrary: seen) auto

text \<open>A \<open>replace\<close> steps over a placeholder of another kind, replaced or not.\<close>

lemma over_first:
  assumes so: "seps_ok ((sep, k', g) # rest)" and post: "plain post"
    and al: "list_all (\<lambda>(sep, k, g). well_formed k g \<and> (if b then plain (f k g) else body_of k (f k g)))
               ((sep, k', g) # rest)"
    and ne: "k \<noteq> k'"
  shows "replace_first (pattern k) F (pass f ks seen ((sep, k', g) # rest) @ post)
       = sep @ (if k' \<in> set ks \<and> (global k' \<or> k' \<notin> set seen) then f k' g else placeholder k' g)
           @ replace_first (pattern k) F (pass f ks (k' # seen) rest @ post)"
proof -
  let ?c = "k' \<in> set ks \<and> (global k' \<or> k' \<notin> set seen)"
  let ?X = "if ?c then f k' g else placeholder k' g"
  let ?tail = "pass f ks (k' # seen) rest @ post"
  have sep: "plain sep" using so by simp
  have wf: "well_formed k' g" and fb: "if b then plain (f k' g) else body_of k' (f k' g)"
    using al by simp_all
  have al': "list_all (\<lambda>(sep, k, g). well_formed k g \<and> (if b then plain (f k g) else body_of k (f k g))) rest"
    using al by simp
  have "replace_first (pattern k) F (sep @ ?X @ ?tail) = sep @ ?X @ replace_first (pattern k) F ?tail"
  proof (cases "b \<and> ?c")
    case True
    then have "plain ?X" using fb by simp
    with sep show ?thesis by (rule skip_plain_first)
  next
    case False
    then have here: "\<not> b \<or> \<not> ?c" by simp
    have "body_of k' ?X" using False fb wf by (auto simp add: placeholder_body_of)
    moreover have "pattern k (CHR ''~'' # ?tail) = None"
      using so post al' here by (rule tail_fails)
    ultimately show ?thesis using sep ne by (intro skip_body_first)
  qed
  then show ?thesis by simp
qed

lemma over_all:
  assumes so: "seps_ok ((sep, k', g) # rest)" and post: "plain post"
    and al: "list_all (\<lambda>(sep, k, g). well_formed k g \<and> (if b then plain (f k g) else body_of k (f k g)))
               ((sep, k', g) # rest)"
    and ne: "k \<noteq> k'"
  shows "replace_all (pattern k) F (pass f ks seen ((sep, k', g) # rest) @ post)
       = sep @ (if k' \<in> set ks \<and> (global k' \<or> k' \<notin> set seen) then f k' g else placeholder k' g)
           @ replace_all (pattern k) F (pass f ks (k' # seen) rest @ post)"
proof -
  let ?c = "k' \<in> set ks \<and> (global k' \<or> k' \<notin> set seen)"
  let ?X = "if ?c then f k' g else placeholder k' g"
  let ?tail = "pass f ks (k' # seen) rest @ post"
  have sep: "plain sep" using so by simp
  have wf: "well_formed k' g" and fb: "if b then plain (f k' g) else body_of k' (f k' g)"
    using al by simp_all
  have al': "list_all (\<lambda>(sep, k, g). well_formed k g \<and> (if b then plain (f k g) else body_of k (f k g))) rest"
    using al by simp
  have "replace_all (pattern k) F (sep @ ?X @ ?tail) = sep @ ?X @ replace_all (pattern k) F ?tail"
  proof (cases "b \<and> ?c")
    case True
    then have "plain ?X" using fb by simp
    with sep show ?thesis by (rule skip_plain_all)
  next
    case False
    then have here: "\<not> b \<or> \<not> ?c" by simp
    have "body_of k' ?X" using False fb wf by (auto simp add: placeholder_body_of)
    moreover have "pattern k (CHR ''~'' # ?tail) = None"
      using so post al' here by (rule tail_fails)
    ultimately show ?thesis using sep ne by (intro skip_body_all)
  qed
  then show ?thesis by simp
qed

text \<open>One \<open>replace\<close> call of a chain takes the template from \<open>pass f ks\<close> to
  \<open>pass f (k # ks)\<close>, and the whole chain from the template as it is written to the
  template with every kind of the chain replaced.\<close>

lemma step_first:
  assumes "\<not> global k" "k \<notin> set ks" "plain post"
    and "seps_ok items" 
    and "list_all (\<lambda>(sep, k, g). well_formed k g \<and> (if b then plain (f k g) else body_of k (f k g))) items"
    and "k \<notin> set seen"
  shows "replace_first (pattern k) (f k) (pass f ks seen items @ post) = pass f (k # ks) seen items @ post"
  using assms(4,5,6)
proof (induction items arbitrary: seen)
  case Nil
  show ?case using assms(3) by (simp add: replace_first_nomatch nomatch_plain)
next
  case (Cons x rest)
  obtain sep k' g where x: "x = (sep, k', g)" by (cases x)
  have sep: "plain sep" using Cons.prems(1) x by simp
  have wf: "well_formed k' g" using Cons.prems(2) x by simp
  have ok: "seps_ok rest" using Cons.prems(1) by (rule seps_ok_tail)
  have al: "list_all (\<lambda>(sep, k, g). well_formed k g \<and> (if b then plain (f k g) else body_of k (f k g))) rest"
    using Cons.prems(2) by simp
  show ?case
  proof (cases "k' = k")
    case True
    have "replace_first (pattern k) (f k) (sep @ placeholder k g @ (pass f ks (k # seen) rest @ post))
            = sep @ f k g @ (pass f ks (k # seen) rest @ post)"
      using wf sep unfolding True by (rule replace_first_own)
    moreover have "pass f (k # ks) (k # seen) rest = pass f ks (k # seen) rest"
      using assms(1) by (intro pass_seen) simp_all
    ultimately show ?thesis using x True assms(2) Cons.prems(3) by simp
  next
    case False
    then have ne: "k \<noteq> k'" by simp
    have "replace_first (pattern k) (f k) (pass f ks seen ((sep, k', g) # rest) @ post)
       = sep @ (if k' \<in> set ks \<and> (global k' \<or> k' \<notin> set seen) then f k' g else placeholder k' g)
           @ replace_first (pattern k) (f k) (pass f ks (k' # seen) rest @ post)"
      using Cons.prems(1)[unfolded x] assms(3) Cons.prems(2)[unfolded x] ne by (rule over_first)
    moreover have "replace_first (pattern k) (f k) (pass f ks (k' # seen) rest @ post)
        = pass f (k # ks) (k' # seen) rest @ post"
      using ok al by (rule Cons.IH) (use False Cons.prems(3) in simp)
    ultimately show ?thesis using x False by simp
  qed
qed

lemma step_all:
  assumes "global k" "k \<notin> set ks" "plain post"
    and "seps_ok items" 
    and "list_all (\<lambda>(sep, k, g). well_formed k g \<and> (if b then plain (f k g) else body_of k (f k g))) items"
  shows "replace_all (pattern k) (f k) (pass f ks seen items @ post) = pass f (k # ks) seen items @ post"
  using assms(4,5)
proof (induction items arbitrary: seen)
  case Nil
  show ?case using assms(3) by (simp add: replace_all_nomatch nomatch_plain)
next
  case (Cons x rest)
  obtain sep k' g where x: "x = (sep, k', g)" by (cases x)
  have sep: "plain sep" using Cons.prems(1) x by simp
  have wf: "well_formed k' g" using Cons.prems(2) x by simp
  have ok: "seps_ok rest" using Cons.prems(1) by (rule seps_ok_tail)
  have al: "list_all (\<lambda>(sep, k, g). well_formed k g \<and> (if b then plain (f k g) else body_of k (f k g))) rest"
    using Cons.prems(2) by simp
  have IH: "replace_all (pattern k) (f k) (pass f ks seen' rest @ post) = pass f (k # ks) seen' rest @ post"
    for seen'
    using ok al by (rule Cons.IH)
  show ?case
  proof (cases "k' = k")
    case True
    have "replace_all (pattern k) (f k) (sep @ placeholder k g @ (pass f ks (k # seen) rest @ post))
            = sep @ f k g @ replace_all (pattern k) (f k) (pass f ks (k # seen) rest @ post)"
      using wf sep unfolding True by (rule replace_all_own)
    then show ?thesis using x True assms(1,2) IH by simp
  next
    case False
    then have ne: "k \<noteq> k'" by simp
    have "replace_all (pattern k) (f k) (pass f ks seen ((sep, k', g) # rest) @ post)
       = sep @ (if k' \<in> set ks \<and> (global k' \<or> k' \<notin> set seen) then f k' g else placeholder k' g)
           @ replace_all (pattern k) (f k) (pass f ks (k' # seen) rest @ post)"
      using Cons.prems(1)[unfolded x] assms(3) Cons.prems(2)[unfolded x] ne by (rule over_all)
    then show ?thesis using x False IH by simp
  qed
qed

lemma step:
  assumes "k \<notin> set ks" "plain post" "seps_ok items" 
    and "list_all (\<lambda>(sep, k, g). well_formed k g \<and> (if b then plain (f k g) else body_of k (f k g))) items"
  shows "substitute k (f k) (pass f ks [] items @ post) = pass f (k # ks) [] items @ post"
proof (cases "global k")
  case True
  then show ?thesis using assms by (simp add: substitute_def step_all)
next
  case False
  then show ?thesis using assms by (simp add: substitute_def step_first)
qed



lemma global_brace: "global k \<longleftrightarrow> k = KBrace"
  by (cases k) simp_all





text \<open>Small numbers, and the hour of the sample surroundings.\<close>

lemma small_numbers:
  "js_to_string (parseInt ''1'') = ''1''" "js_to_string (parseInt ''5'') = ''5''"
  "js_to_string (js_add (parseInt ''1'') (Fin 1)) = ''2''"
  "js_to_string (js_add (parseInt ''5'') (Fin 1)) = ''6''"
  "js_to_string (js_add (parseInt ''0'') (Fin 1)) = ''1''"
  "js_to_string (js_add (parseInt ''1'') (parseInt ''2'')) = ''3''"
  using value_counter[of 1] value_counter[of 5] next_inc[of 1] next_inc[of 5] next_inc[of 0]
    next_plus[of "''1''" "''2''"]
  by (simp_all add: dec_digit digit_char_def numeral_str_def digits_val_def digit_val_def is_digit_def)


section \<open>Properties of the server\<close>

subsection \<open>The log\<close>



lemma pushLog_db:
  "dbm (pushLog e entry s) = addLog entry (e_now e) (dbm s)"
  by (simp add: pushLog_def Let_def)

lemma pushLog_rest [simp]:
  "gTasks (pushLog e entry s) = gTasks s" "gIntervals (pushLog e entry s) = gIntervals s"
  "timers (pushLog e entry s) = timers s" "timer_seq (pushLog e entry s) = timer_seq s"
  by (simp_all add: pushLog_def Let_def)

lemma addLog_rest [simp]:
  "db_tasks (addLog m n db) = db_tasks db" "db_intervals (addLog m n db) = db_intervals db"
  by (simp_all add: addLog_def)

lemma rehydrate_def_log [simp]: "gTasksLog (rehydrate_def s d) = gTasksLog s"
  by (simp add: rehydrate_def_def setInterval_def)

lemma rehydrate_log [simp]: "gTasksLog (foldl rehydrate_def s ds) = gTasksLog s"
  by (induction ds arbitrary: s) simp_all





subsection \<open>A run of a task and the table of tasks\<close>

lemma doTask_db_tasks: "db_tasks (dbm (fst (doTask e tName s))) = db_tasks (dbm s)"
  by (simp add: doTask_def Let_def pushLog_db split: option.splits field.splits prod.splits)

lemma doTask_db_intervals: "db_intervals (dbm (fst (doTask e tName s))) = db_intervals (dbm s)"
  by (simp add: doTask_def Let_def pushLog_db split: option.splits field.splits prod.splits)

lemma counter_task_state:
  "counter_task_state =
     \<lparr>gTasks = [\<lparr>t_name = ''t'', t_type = Str ''http'', t_data = Str ''example.org/~inc$5~'',
                  t_postType = Str [], t_postData = Str []\<rparr>],
      gTasksLog = [], gIntervals = [],
      dbm = \<lparr>db_tasks = [\<lparr>t_name = ''t'', t_type = Str ''http'', t_data = Str ''example.org/~inc$5~'',
                  t_postType = Str [], t_postData = Str []\<rparr>],
             db_intervals = [], db_logs = [], db_log_seq = 0\<rparr>,
      timers = [], timer_seq = 0\<rparr>"
  by (simp add: counter_task_state_def api_task_add_def startup_def empty_db_def getAllTasks_def
      getAllIntervalDefs_def getLastLogs_def trim_def is_space_def upsertTask_def put_task_def Let_def)

lemma counter_run:
  "expand e ''example.org/~inc$5~'' = ''example.org/5''"
  "advance ''example.org/~inc$5~'' = ''example.org/~inc$6~''"
  "expand e [] = []" "advance [] = []"
proof -
  have "expand e (''example.org/'' @ placeholder KInc (''5'', []) @ []) = ''example.org/'' @ value_cb e KInc (''5'', []) @ []"
    by (rule one_expand) (simp_all add: small_numbers numeral_str_def is_digit_def)
  then show "expand e ''example.org/~inc$5~'' = ''example.org/5''" by (simp add: small_numbers)
  have "advance (''example.org/'' @ placeholder KInc (''5'', []) @ []) = ''example.org/'' @ next_cb KInc (''5'', []) @ []"
    by (rule one_advance) (simp_all add: numeral_str_def is_digit_def)
  then show "advance ''example.org/~inc$5~'' = ''example.org/~inc$6~''" by (simp add: small_numbers)
  show "expand e [] = []" by (simp add: expand_def substitute_def)
  show "advance [] = []" by (simp add: advance_def substitute_def)
qed

subsection \<open>Adding a routine\<close>

lemma parseInt_huge: "parseInt (CHR ''1'' # replicate 309 (CHR ''0'')) = PosInf"
proof -
  have n: "numeral_str (CHR ''1'' # replicate 309 (CHR ''0''))"
    by (simp add: numeral_str_def is_digit_def list_all_iff)
  have "digits_val ([CHR ''1''] @ replicate 309 (CHR ''0'')) = digits_val [CHR ''1''] * 10 ^ 309"
    by (rule digits_val_zeros)
  then have v: "digits_val (CHR ''1'' # replicate 309 (CHR ''0'')) = 10 ^ 309"
    by (simp add: digits_val_def digit_val_def)
  have "(2::nat) ^ 1024 \<le> 10 ^ 309" by simp
  then show ?thesis unfolding parseInt_numeral[OF n] v by (rule round_double_inf)
qed

lemma finite_Fin: "js_isFinite x \<Longrightarrow> x = Fin (js_int x)"
  by (cases x) simp_all

lemma parseInt_samples: "parseInt ''60000'' = Fin 60000" "parseInt ''0'' = Fin 0"
proof -
  have "numeral_str ''60000''" "numeral_str ''0''" by (simp_all add: numeral_str_def is_digit_def)
  then show "parseInt ''60000'' = Fin 60000" "parseInt ''0'' = Fin 0"
    by (simp_all add: parseInt_numeral digits_val_def digit_val_def round_double_small)
qed

subsection \<open>Startup\<close>

lemma list_ex_name: "list_ex (\<lambda>t. t_name t = n) ts \<longleftrightarrow> n \<in> set (map t_name ts)"
  by (auto simp add: list_ex_iff intro: rev_image_eqI)

lemma rehydrate_def_gTasks [simp]: "gTasks (rehydrate_def s d) = gTasks s"
  by (simp add: rehydrate_def_def setInterval_def)

lemma rehydrate_gTasks [simp]: "gTasks (foldl rehydrate_def s ds) = gTasks s"
  by (induction ds arbitrary: s) simp_all

lemma rehydrate_def_db_tasks [simp]: "db_tasks (dbm (rehydrate_def s d)) = db_tasks (dbm s)"
  by (simp add: rehydrate_def_def setInterval_def deleteIntervalDef_def)

lemma rehydrate_db_tasks [simp]: "db_tasks (dbm (foldl rehydrate_def s ds)) = db_tasks (dbm s)"
  by (induction ds arbitrary: s) simp_all


lemma rehydrate_intervals:
  "map (\<lambda>i. (i_name i, i_time i)) (gIntervals (foldl rehydrate_def s ds))
     = map (\<lambda>i. (i_name i, i_time i)) (gIntervals s)
       @ map (\<lambda>d. (d_name d, d_timeMs d))
           (filter (\<lambda>d. d_name d \<in> set (map t_name (gTasks s))) ds)"
proof (induction ds arbitrary: s)
  case Nil
  show ?case by simp
next
  case (Cons d ds)
  show ?case
    by (simp add: Cons.IH) (simp add: rehydrate_def_def setInterval_def list_ex_name)
qed









section \<open>The claims about the template engine\<close>

text \<open>
  Claim C5, as the code has it. The claim holds for every non-negative integer \<open>N\<close>
  below \<open>2^53 = 9007199254740992\<close>, in a template whose other text has no tilde:
  \<open>~inc$N~\<close> is worth the numeral of \<open>N\<close> in this run and is stored as
  \<open>~inc$(N+1)~\<close>; \<open>~dec$N~\<close> is worth the numeral of \<open>N\<close> and is stored as
  \<open>~dec$(N-1)~\<close>, which is \<open>~dec$-1~\<close> for \<open>N = 0\<close>. The counter is a double: from
  \<open>2^53\<close> on, adding one is no longer exact.
\<close>

theorem counter_placeholder_exact:
  assumes "plain pre" and "plain post" and "N < 2 ^ 53"
  shows "expand e (pre @ ''~inc$'' @ dec N @ ''~'' @ post) = pre @ dec N @ post
       \<and> advance (pre @ ''~inc$'' @ dec N @ ''~'' @ post)
           = pre @ ''~inc$'' @ dec (N + 1) @ ''~'' @ post
       \<and> expand e (pre @ ''~dec$'' @ dec N @ ''~'' @ post) = pre @ dec N @ post
       \<and> advance (pre @ ''~dec$'' @ dec N @ ''~'' @ post)
           = pre @ ''~dec$'' @ (if N = 0 then ''-1'' else dec (N - 1)) @ ''~'' @ post"
proof -
  have v: "js_to_string (parseInt (dec N)) = dec N"
    using assms(3) by (intro value_counter) simp
  have 1: "expand e (pre @ placeholder KInc (dec N, []) @ post) = pre @ value_cb e KInc (dec N, []) @ post"
    using assms by (intro one_expand) (simp_all add: v)
  have 2: "advance (pre @ placeholder KInc (dec N, []) @ post) = pre @ next_cb KInc (dec N, []) @ post"
    using assms by (intro one_advance) simp_all
  have 3: "expand e (pre @ placeholder KDec (dec N, []) @ post) = pre @ value_cb e KDec (dec N, []) @ post"
    using assms by (intro one_expand) (simp_all add: v)
  have 4: "advance (pre @ placeholder KDec (dec N, []) @ post) = pre @ next_cb KDec (dec N, []) @ post"
    using assms by (intro one_advance) simp_all
  show ?thesis
    using 1 2 3 4 by (simp add: v next_inc[OF assms(3)] next_dec[OF assms(3)])
qed

text \<open>The theorem at the counter 5, in the sample surroundings.\<close>

theorem counter_placeholder_exact_witness:
  "plain [] \<and> (5::nat) < 2 ^ 53
   \<and> expand env0 ''~inc$5~'' = ''5'' \<and> advance ''~inc$5~'' = ''~inc$6~''
   \<and> expand env0 ''~dec$5~'' = ''5'' \<and> advance ''~dec$5~'' = ''~dec$4~''"
  using counter_placeholder_exact [of "[]" "[]" 5 env0]
  by (simp add: dec_digit digit_char_def)

text \<open>
  Claim C5 as it is stated, for any non-negative integer, fails at \<open>N = 2^53\<close>:
  \<open>parseInt\<close> reads 9007199254740992, adding 1 gives the same double again, and the
  stored template does not change, so the counter stays where it is in every later
  run.
\<close>

theorem counter_stuck_at_2_53:
  "advance ''~inc$9007199254740992~'' = ''~inc$9007199254740992~''
   \<and> advance ''~inc$9007199254740992~'' \<noteq> ''~inc$9007199254740993~''"
proof -
  have "advance ([] @ placeholder KInc (''9007199254740992'', []) @ [])
          = [] @ next_cb KInc (''9007199254740992'', []) @ []"
    by (intro one_advance) (simp_all add: numeral_str_def is_digit_def)
  then have "advance ''~inc$9007199254740992~'' = ''~inc$9007199254740992~''"
    by (simp add: parse_2_53 round_2_53_1 nat_to_string_2_53)
  then show ?thesis by simp
qed

text \<open>
  Claim C10. In a template whose other text has no tilde, \<open>~dec$0~\<close> is stored as
  \<open>~dec$-1~\<close>, and \<open>~A - B~\<close> with \<open>A < B\<close> (in the range where doubles are exact) is
  stored as \<open>~-(B-A) - B~\<close>. No expression of the ten kinds matches anywhere in the
  resulting template: every later run evaluates it to its own text, and however often
  it is advanced it stays as it is.
\<close>

theorem negative_placeholder_dead:
  assumes "plain pre" and "plain post" and "A < B" and "B < 2 ^ 53"
  shows "advance (pre @ ''~dec$0~'' @ post) = pre @ ''~dec$-1~'' @ post
       \<and> list_all (\<lambda>k. nomatch (pattern k) (pre @ ''~dec$-1~'' @ post))
            [KHour, KDate, KInc, KDec, KBrace, KPlus, KMinus, KFiles, KLines, KWords]
       \<and> expand e (pre @ ''~dec$-1~'' @ post) = pre @ ''~dec$-1~'' @ post
       \<and> (advance ^^ n) (pre @ ''~dec$-1~'' @ post) = pre @ ''~dec$-1~'' @ post
       \<and> advance (pre @ ''~'' @ dec A @ '' - '' @ dec B @ ''~'' @ post)
           = pre @ ''~-'' @ dec (B - A) @ '' - '' @ dec B @ ''~'' @ post
       \<and> list_all (\<lambda>k. nomatch (pattern k)
              (pre @ ''~-'' @ dec (B - A) @ '' - '' @ dec B @ ''~'' @ post))
            [KHour, KDate, KInc, KDec, KBrace, KPlus, KMinus, KFiles, KLines, KWords]
       \<and> expand e (pre @ ''~-'' @ dec (B - A) @ '' - '' @ dec B @ ''~'' @ post)
           = pre @ ''~-'' @ dec (B - A) @ '' - '' @ dec B @ ''~'' @ post
       \<and> (advance ^^ n) (pre @ ''~-'' @ dec (B - A) @ '' - '' @ dec B @ ''~'' @ post)
           = pre @ ''~-'' @ dec (B - A) @ '' - '' @ dec B @ ''~'' @ post"
proof -
  let ?D = "pre @ ''~dec$-1~'' @ post"
  let ?M = "pre @ ''~-'' @ dec (B - A) @ '' - '' @ dec B @ ''~'' @ post"
  have D: "?D = pre @ CHR ''~'' # ''dec$-1'' @ CHR ''~'' # post" by simp
  have M: "?M = pre @ CHR ''~'' # (CHR ''-'' # dec (B - A) @ '' - '' @ dec B) @ CHR ''~'' # post"
    by simp
  have dD: "prefix ''dec$-'' ''dec$-1'' \<or> prefix ''-'' ''dec$-1''" by simp
  have dM: "prefix ''dec$-'' (CHR ''-'' # dec (B - A) @ '' - '' @ dec B)
      \<or> prefix ''-'' (CHR ''-'' # dec (B - A) @ '' - '' @ dec B)" by simp
  have pD: "plain ''dec$-1''" by simp
  have pM: "plain (CHR ''-'' # dec (B - A) @ '' - '' @ dec B)" by simp
  have 1: "advance (pre @ ''~dec$0~'' @ post) = ?D"
  proof -
    have "advance (pre @ placeholder KDec (dec 0, []) @ post) = pre @ next_cb KDec (dec 0, []) @ post"
      using assms(1,2) by (intro one_advance) simp_all
    moreover have "js_to_string (js_sub (parseInt (dec 0)) (Fin 1)) = ''-1''"
      using next_dec[of 0] by simp
    ultimately show ?thesis by (simp add: dec_0)
  qed
  have 2: "nomatch (pattern k) ?D" for k
    unfolding D using dD assms(1) pD assms(2) by (rule dead_nomatch)
  have 3: "expand e ?D = ?D"
    unfolding D using dD assms(1) pD assms(2) by (rule dead_template)
  have "advance ?D = ?D"
    unfolding D using dD assms(1) pD assms(2) by (rule dead_template)
  then have 4: "(advance ^^ n) ?D = ?D" by (rule funpow_fixed)
  have 5: "advance (pre @ ''~'' @ dec A @ '' - '' @ dec B @ ''~'' @ post) = ?M"
  proof -
    have w: "well_formed KMinus (dec A, dec B)"
      using assms(3,4) by (simp add: digits_val_dec)
    have "advance (pre @ placeholder KMinus (dec A, dec B) @ post)
            = pre @ next_cb KMinus (dec A, dec B) @ post"
      using w assms(1,2) by (rule one_advance)
    moreover have "js_to_string (js_sub (parseInt (dec A)) (parseInt (dec B))) = CHR ''-'' # dec (B - A)"
      using next_minus[of "dec A" "dec B"] assms(3,4) by (simp add: digits_val_dec)
    ultimately show ?thesis by simp
  qed
  have 6: "nomatch (pattern k) ?M" for k
    unfolding M using dM assms(1) pM assms(2) by (rule dead_nomatch)
  have 7: "expand e ?M = ?M"
    unfolding M using dM assms(1) pM assms(2) by (rule dead_template)
  have "advance ?M = ?M"
    unfolding M using dM assms(1) pM assms(2) by (rule dead_template)
  then have 8: "(advance ^^ n) ?M = ?M" by (rule funpow_fixed)
  show ?thesis
    using 1 2 3 4 5 6 7 8 by (simp only: list.pred_inject simp_thms)
qed

text \<open>The theorem at \<open>~dec$0~\<close> and at \<open>~2 - 7~\<close>, three runs on.\<close>

theorem negative_placeholder_dead_witness:
  "plain [] \<and> (2::nat) < 7 \<and> (7::nat) < 2 ^ 53
   \<and> advance ''~dec$0~'' = ''~dec$-1~''
   \<and> expand env0 ''~dec$-1~'' = ''~dec$-1~''
   \<and> (advance ^^ 3) ''~dec$-1~'' = ''~dec$-1~''
   \<and> advance ''~2 - 7~'' = ''~-5 - 7~''
   \<and> expand env0 ''~-5 - 7~'' = ''~-5 - 7~''
   \<and> (advance ^^ 3) ''~-5 - 7~'' = ''~-5 - 7~''"
  using negative_placeholder_dead [of "[]" "[]" 2 7 env0 3]
  by (simp add: dec_digit digit_char_def)

text \<open>
  Claim C6 fails for a list of one token. The advance step always writes the rest of
  the list, a space, and the first token: with one token the rest is empty, and
  \<open>~{a}~\<close> is stored as \<open>~{ a}~\<close>, not as \<open>~{a}~\<close>. In the next run the list begins
  with an empty token, so the placeholder is worth the empty string, and the template
  goes on to \<open>~{a }~\<close> and back. (For two tokens or more the claim holds, see
  \<open>bracket_rotation\<close>.)
\<close>

theorem single_token_bracket_list:
  "expand e ''~{a}~'' = ''a''
   \<and> advance ''~{a}~'' = ''~{ a}~''
   \<and> expand e ''~{ a}~'' = ''''
   \<and> advance ''~{ a}~'' = ''~{a }~''
   \<and> expand e ''~{a }~'' = ''a''
   \<and> advance ''~{a }~'' = ''~{ a}~''"
proof -
  have a: "expand e ([] @ placeholder KBrace (g, []) @ []) = [] @ value_cb e KBrace (g, []) @ []"
    if "plain g" "CHR ''}'' \<notin> set g" for g
    using that by (intro one_expand) (simp_all add: plain_hd_split)
  have b: "advance ([] @ placeholder KBrace (g, []) @ []) = [] @ next_cb KBrace (g, []) @ []"
    if "plain g" "CHR ''}'' \<notin> set g" for g
    using that by (intro one_advance) simp_all
  show ?thesis
    using a[of "''a''"] b[of "''a''"] a[of "'' a''"] b[of "'' a''"] a[of "''a ''"] b[of "''a ''"]
    by simp
qed




section \<open>The claims about the server\<close>



text \<open>
  Claim C1 fails in the code. \<open>doTask\<close> advances the two templates in the task object
  of \<open>gTasks\<close> and never calls \<open>upsertTask\<close>: whatever the task and the state, the table
  \<open>tasks\<close> is after the run what it was before. In the sample state the task \<open>t\<close> has
  the address \<open>example.org/~inc$5~\<close>: the run asks for \<open>example.org/5\<close> and leaves
  \<open>~inc$6~\<close> in memory and \<open>~inc$5~\<close> in the table, and a server that starts from that
  table begins at 5 again. (The routes that save and import a task write the table and
  the cache together.)
\<close>

theorem run_not_persisted:
  "db_tasks (dbm (fst (doTask e tName s))) = db_tasks (dbm s)
   \<and> map rq_url (snd (doTask env0 ''t'' counter_task_state))
       = [''http://localhost:1337/api/httpp/example.org/5'']
   \<and> map t_data (gTasks (fst (doTask env0 ''t'' counter_task_state)))
       = [Str ''example.org/~inc$6~'']
   \<and> map t_data (db_tasks (dbm (fst (doTask env0 ''t'' counter_task_state))))
       = [Str ''example.org/~inc$5~'']
   \<and> map t_data (gTasks (startup (dbm (fst (doTask env0 ''t'' counter_task_state)))))
       = [Str ''example.org/~inc$5~'']"
proof -
  have run: "doTask env0 ''t'' counter_task_state =
    (counter_task_state\<lparr>gTasks := [\<lparr>t_name = ''t'', t_type = Str ''http'',
         t_data = Str ''example.org/~inc$6~'', t_postType = Str [], t_postData = Str []\<rparr>]\<rparr>,
     [\<lparr>rq_method = GET, rq_url = ''http://localhost:1337/api/httpp/example.org/5'',
       rq_contentType = Undefined, rq_body = []\<rparr>])"
    by (simp add: doTask_def counter_task_state counter_run target_def base_url_def Let_def env0_def)
  show ?thesis
    by (simp add: doTask_db_tasks run)
       (simp add: counter_task_state startup_def getAllTasks_def getAllIntervalDefs_def
          getLastLogs_def trim_def is_space_def)
qed

text \<open>
  Claim C9, as the code has it. The name is the trimmed name of the request and the
  period is what \<open>parseInt\<close> reads from its field \<open>time\<close>. The route answers with
  status 400, and leaves the state as it is (no timer, nothing stored), exactly when
  the name is empty, the period is not a finite number above zero (\<open>NaN\<close>, an
  infinity, zero or below), or no task of that name is in \<open>gTasks\<close>. Otherwise it
  answers with status 200, stores the definition of that name and period, starts one
  timer with that period, and pushes its entry onto \<open>gIntervals\<close>; a tick of that timer
  is \<open>doTask\<close> for that name.
\<close>

theorem interval_add_validated:
  "fst (fst (api_interval_add time name0 s))
     = (if trim name0 = [] \<or> \<not> js_isFinite (parseInt time) \<or> js_le_zero (parseInt time)
           \<or> trim name0 \<notin> set (map t_name (gTasks s))
        then 400 else 200)
   \<and> (trim name0 = [] \<or> \<not> js_isFinite (parseInt time) \<or> js_le_zero (parseInt time)
        \<or> trim name0 \<notin> set (map t_name (gTasks s))
      \<longrightarrow> snd (api_interval_add time name0 s) = s)
   \<and> (\<not> (trim name0 = [] \<or> \<not> js_isFinite (parseInt time) \<or> js_le_zero (parseInt time)
        \<or> trim name0 \<notin> set (map t_name (gTasks s)))
      \<longrightarrow> parseInt time = Fin (js_int (parseInt time)) \<and> 0 < js_int (parseInt time)
        \<and> dbm (snd (api_interval_add time name0 s))
            = addIntervalDef (trim name0) (js_int (parseInt time)) (dbm s)
        \<and> \<lparr>d_name = trim name0, d_timeMs = js_int (parseInt time)\<rparr>
            \<in> set (db_intervals (dbm (snd (api_interval_add time name0 s))))
        \<and> timers (snd (api_interval_add time name0 s))
            = timers s @ [\<lparr>tm_id = timer_seq s + 1, tm_name = trim name0,
                            tm_delay = js_int (parseInt time)\<rparr>]
        \<and> gIntervals (snd (api_interval_add time name0 s))
            = gIntervals s @ [\<lparr>i_name = trim name0, i_id = timer_seq s + 1,
                                i_time = js_int (parseInt time)\<rparr>]
        \<and> gTasks (snd (api_interval_add time name0 s)) = gTasks s
        \<and> tick e \<lparr>tm_id = timer_seq s + 1, tm_name = trim name0,
                    tm_delay = js_int (parseInt time)\<rparr> s'
            = doTask e (trim name0) s')"
proof -
  let ?bad = "trim name0 = [] \<or> \<not> js_isFinite (parseInt time) \<or> js_le_zero (parseInt time)
        \<or> trim name0 \<notin> set (map t_name (gTasks s))"
  have ex: "list_ex (\<lambda>t. t_name t = trim name0) (gTasks s) \<longleftrightarrow> trim name0 \<in> set (map t_name (gTasks s))"
    by (auto simp add: list_ex_iff intro: rev_image_eqI)
  show ?thesis
  proof (cases ?bad)
    case True
    then have "api_interval_add time name0 s = ((400, snd (fst (api_interval_add time name0 s))), s)"
      by (auto simp add: api_interval_add_def Let_def ex)
    then have "fst (fst (api_interval_add time name0 s)) = 400" "snd (api_interval_add time name0 s) = s"
      by (metis fst_conv, metis snd_conv)
    with True show ?thesis by simp
  next
    case False
    then have ok: "trim name0 \<noteq> []" "js_isFinite (parseInt time)" "\<not> js_le_zero (parseInt time)"
      "trim name0 \<in> set (map t_name (gTasks s))" by auto
    have fin: "parseInt time = Fin (js_int (parseInt time))" using ok(2) by (rule finite_Fin)
    have pos: "0 < js_int (parseInt time)" using ok(3) fin by (cases "parseInt time") simp_all
    have r: "api_interval_add time name0 s =
       ((200, Text ''Added new interval''),
        s\<lparr>dbm := addIntervalDef (trim name0) (js_int (parseInt time)) (dbm s),
          timers := timers s @ [\<lparr>tm_id = timer_seq s + 1, tm_name = trim name0,
                            tm_delay = js_int (parseInt time)\<rparr>],
          timer_seq := timer_seq s + 1,
          gIntervals := gIntervals s @ [\<lparr>i_name = trim name0, i_id = timer_seq s + 1,
                                i_time = js_int (parseInt time)\<rparr>]\<rparr>)"
      using ok by (simp add: api_interval_add_def Let_def ex setInterval_def)
    have mem: "\<lparr>d_name = trim name0, d_timeMs = js_int (parseInt time)\<rparr>
        \<in> set (db_intervals (addIntervalDef (trim name0) (js_int (parseInt time)) (dbm s)))"
      by (auto simp add: addIntervalDef_def image_iff intro!: bexI)
    show ?thesis using False fin pos mem by (simp add: r tick_def)
  qed
qed

text \<open>
  The theorem at the sample state: a routine of one minute for the task \<open>t\<close>, named
  with spaces around it, is added; a period of zero and a task that does not exist are
  refused, and the state stays as it was.
\<close>

theorem interval_add_validated_witness:
  "fst (fst (api_interval_add ''60000'' '' t '' counter_task_state)) = 200
   \<and> db_intervals (dbm (snd (api_interval_add ''60000'' '' t '' counter_task_state)))
       = [\<lparr>d_name = ''t'', d_timeMs = 60000\<rparr>]
   \<and> timers (snd (api_interval_add ''60000'' '' t '' counter_task_state))
       = [\<lparr>tm_id = 1, tm_name = ''t'', tm_delay = 60000\<rparr>]
   \<and> gIntervals (snd (api_interval_add ''60000'' '' t '' counter_task_state))
       = [\<lparr>i_name = ''t'', i_id = 1, i_time = 60000\<rparr>]
   \<and> tick env0 \<lparr>tm_id = 1, tm_name = ''t'', tm_delay = 60000\<rparr> counter_task_state
       = doTask env0 ''t'' counter_task_state
   \<and> fst (fst (api_interval_add ''0'' ''t'' counter_task_state)) = 400
   \<and> snd (api_interval_add ''0'' ''t'' counter_task_state) = counter_task_state
   \<and> fst (fst (api_interval_add ''60000'' ''u'' counter_task_state)) = 400
   \<and> snd (api_interval_add ''60000'' ''u'' counter_task_state) = counter_task_state"
proof -
  have tr: "trim '' t '' = ''t''" "trim ''t'' = ''t''" "trim ''u'' = ''u''"
    by (simp_all add: trim_def is_space_def)
  have st: "gTasks counter_task_state = [\<lparr>t_name = ''t'', t_type = Str ''http'',
       t_data = Str ''example.org/~inc$5~'', t_postType = Str [], t_postData = Str []\<rparr>]"
    "timers counter_task_state = []" "gIntervals counter_task_state = []"
    "timer_seq counter_task_state = 0" "db_intervals (dbm counter_task_state) = []"
    by (simp_all add: counter_task_state)
  show ?thesis
    using interval_add_validated [of "''60000''" "'' t ''" counter_task_state env0 counter_task_state]
      interval_add_validated [of "''0''" "''t''" counter_task_state env0 counter_task_state]
      interval_add_validated [of "''60000''" "''u''" counter_task_state env0 counter_task_state]
    by (simp add: tr st parseInt_samples addIntervalDef_def)
qed

text \<open>
  Claim C9 as it is stated, with a period that is refused only when it is not a
  positive number, fails for a period too large for a double: a \<open>1\<close> followed by 309
  zeros is a positive number, \<open>parseInt\<close> reads it as \<open>Infinity\<close>, and the route refuses
  it although the name is not empty and the task exists.
\<close>

theorem interval_add_rejects_huge_period:
  "api_interval_add (CHR ''1'' # replicate 309 (CHR ''0'')) ''t'' counter_task_state
     = ((400, Text ''Invalid interval time''), counter_task_state)
   \<and> ''t'' \<in> set (map t_name (gTasks counter_task_state))"
  by (simp add: api_interval_add_def Let_def parseInt_huge trim_def is_space_def counter_task_state)




declare retry_loop.simps [simp del]

section \<open>Properties of the retry loop\<close>

lemma retry_loop_retry:
  "attempt < length backoffsMs \<Longrightarrow> retryable (net attempt) \<Longrightarrow>
   retry_loop net backoffsMs attempt slept
     = retry_loop net backoffsMs (attempt + 1) (slept @ [backoffsMs ! attempt])"
  by (subst retry_loop.simps) (simp add: retryable_def split: outcome.splits)

lemma retry_loop_stop:
  "attempt < length backoffsMs \<Longrightarrow> \<not> retryable (net attempt) \<Longrightarrow>
   retry_loop net backoffsMs attempt slept
     = \<lparr>rr_result = net attempt, rr_slept = slept, rr_calls = attempt + 1\<rparr>"
  by (subst retry_loop.simps) (simp add: retryable_def split: outcome.splits)

lemma retry_loop_last:
  "\<not> attempt < length backoffsMs \<Longrightarrow>
   retry_loop net backoffsMs attempt slept
     = \<lparr>rr_result = net attempt, rr_slept = slept, rr_calls = attempt + 1\<rparr>"
  by (subst retry_loop.simps) simp

lemma retry_loop_post:
  "attempt \<le> length backoffsMs \<Longrightarrow> slept = take attempt backoffsMs \<Longrightarrow>
   retry_post net backoffsMs attempt (retry_loop net backoffsMs attempt slept)"
proof (induction "length backoffsMs - attempt" arbitrary: attempt slept)
  case 0
  then have "attempt = length backoffsMs" by simp
  with 0 show ?case by (auto simp add: retry_loop_last retry_post_def)
next
  case (Suc k)
  then have lt: "attempt < length backoffsMs" by simp
  show ?case
  proof (cases "retryable (net attempt)")
    case False
    with lt Suc.prems show ?thesis by (auto simp add: retry_loop_stop retry_post_def)
  next
    case True
    have nxt: "slept @ [backoffsMs ! attempt] = take (attempt + 1) backoffsMs"
      using lt Suc.prems by (simp add: take_Suc_conv_app_nth)
    have k: "k = length backoffsMs - (attempt + 1)" using Suc.hyps(2) by simp
    have le: "attempt + 1 \<le> length backoffsMs" using lt by simp
    have IH: "retry_post net backoffsMs (attempt + 1)
                (retry_loop net backoffsMs (attempt + 1) (slept @ [backoffsMs ! attempt]))"
      by (rule Suc.hyps(1)[OF k le nxt])
    have step: "retry_loop net backoffsMs attempt slept
                  = retry_loop net backoffsMs (attempt + 1) (slept @ [backoffsMs ! attempt])"
      using lt True by (rule retry_loop_retry)
    have "\<And>i r. attempt \<le> i \<Longrightarrow> i < r \<Longrightarrow>
            (\<forall>j. attempt + 1 \<le> j \<and> j < r \<longrightarrow> retryable (net j)) \<Longrightarrow> retryable (net i)"
      using True by (metis Suc_eq_plus1 Suc_leI le_neq_implies_less)
    with IH show ?thesis unfolding step retry_post_def by auto
  qed
qed


lemma retryable_Resolved:
  "retryable (Resolved st) \<longleftrightarrow> st = 408 \<or> st = 429 \<or> st \<ge> 500"
  by (simp add: retryable_def isTransientStatus_def)

lemma retryable_Rejected:
  "retryable (Rejected err) \<longleftrightarrow>
     err \<in> {Some ''ETIMEDOUT'', Some ''ECONNRESET'', Some ''EAI_AGAIN'', Some ''ECONNREFUSED'',
             Some ''ENETUNREACH'', Some ''EHOSTUNREACH'', Some ''ENOTFOUND'', Some ''EPIPE''}"
  by (cases err) (auto simp add: retryable_def isTransientError_def transient_codes_def)

text \<open>
  Claim C2. Whatever the network answers and whatever the backoff list is, a run of
  \<open>withRetries\<close> sleeps a prefix of the backoff list, delay by delay in order, and makes
  one call more than it sleeps. Every call before the last had a retryable outcome:
  a status 408, 429 or at least 500, or an error whose code is one of ETIMEDOUT,
  ECONNRESET, EAI_AGAIN, ENOTFOUND, ECONNREFUSED, ENETUNREACH, EHOSTUNREACH, EPIPE.
  The outcome of the last call is handed to the caller unchanged. If the list was not
  used up, the last outcome was not retryable (it was returned or thrown at once, with
  no sleep); if it was used up, the last call is the one final attempt, not followed by
  any sleep, whatever its outcome. The default list is 500, 1500, 3500 milliseconds.
\<close>

theorem withRetries_policy:
  "(let r = withRetries net backoffsMs; k = length (rr_slept r) in
      rr_slept r = take k backoffsMs
    \<and> k \<le> length backoffsMs
    \<and> rr_calls r = k + 1
    \<and> rr_result r = net k
    \<and> (\<forall>i. i < k \<longrightarrow> retryable (net i))
    \<and> (k < length backoffsMs \<longrightarrow> \<not> retryable (net k)))
   \<and> (\<forall>st. retryable (Resolved st) \<longleftrightarrow> st = 408 \<or> st = 429 \<or> st \<ge> 500)
   \<and> (\<forall>err. retryable (Rejected err) \<longleftrightarrow>
         err \<in> {Some ''ETIMEDOUT'', Some ''ECONNRESET'', Some ''EAI_AGAIN'',
                 Some ''ECONNREFUSED'', Some ''ENETUNREACH'', Some ''EHOSTUNREACH'',
                 Some ''ENOTFOUND'', Some ''EPIPE''})
   \<and> RETRY_BACKOFFS_MS = [500, 1500, 3500]"
proof -
  have p: "retry_post net backoffsMs 0 (withRetries net backoffsMs)"
    unfolding withRetries_def by (rule retry_loop_post) simp_all
  have 1: "(let r = withRetries net backoffsMs; k = length (rr_slept r) in
      rr_slept r = take k backoffsMs
    \<and> k \<le> length backoffsMs
    \<and> rr_calls r = k + 1
    \<and> rr_result r = net k
    \<and> (\<forall>i. i < k \<longrightarrow> retryable (net i))
    \<and> (k < length backoffsMs \<longrightarrow> \<not> retryable (net k)))"
    using p unfolding retry_post_def Let_def by simp
  have 2: "RETRY_BACKOFFS_MS = [500, 1500, 3500]"
    by (simp add: RETRY_BACKOFFS_MS_def)
  show ?thesis
    using 1 2 retryable_Resolved retryable_Rejected by blast
qed

text \<open>
  The theorem at an endpoint that answers 500 three times and then 200: the three
  delays are slept, the fourth call is the last, and its response is returned. And at an
  endpoint that answers 404: the list is not used up, nothing is slept, the response
  is returned at once.
\<close>

theorem withRetries_policy_witness:
  "rr_slept (withRetries (\<lambda>i. if i < 3 then Resolved 500 else Resolved 200) RETRY_BACKOFFS_MS)
     = [500, 1500, 3500]
   \<and> rr_calls (withRetries (\<lambda>i. if i < 3 then Resolved 500 else Resolved 200) RETRY_BACKOFFS_MS) = 4
   \<and> rr_result (withRetries (\<lambda>i. if i < 3 then Resolved 500 else Resolved 200) RETRY_BACKOFFS_MS)
     = Resolved 200
   \<and> retryable (Resolved 500)
   \<and> rr_slept (withRetries (\<lambda>i. Resolved 404) RETRY_BACKOFFS_MS) = []
   \<and> length (rr_slept (withRetries (\<lambda>i. Resolved 404) RETRY_BACKOFFS_MS)) < length RETRY_BACKOFFS_MS
   \<and> \<not> retryable (Resolved 404)
   \<and> rr_result (withRetries (\<lambda>i. Resolved 404) RETRY_BACKOFFS_MS) = Resolved 404"
proof -
  have a: "withRetries (\<lambda>i. if i < 3 then Resolved 500 else Resolved 200) RETRY_BACKOFFS_MS
        = \<lparr>rr_result = Resolved 200, rr_slept = [500, 1500, 3500], rr_calls = 4\<rparr>"
    by (simp add: withRetries_def RETRY_BACKOFFS_MS_def retry_loop.simps isTransientStatus_def)
  have b: "withRetries (\<lambda>i. Resolved 404) RETRY_BACKOFFS_MS
        = \<lparr>rr_result = Resolved 404, rr_slept = [], rr_calls = 1\<rparr>"
    by (simp add: withRetries_def RETRY_BACKOFFS_MS_def retry_loop.simps isTransientStatus_def)
  have c: "retryable (Resolved 500)" "\<not> retryable (Resolved 404)"
    by (simp_all add: retryable_Resolved)
  note t1 = withRetries_policy [of "\<lambda>i. if i < 3 then Resolved 500 else Resolved 200"
      RETRY_BACKOFFS_MS, THEN conjunct1, unfolded Let_def a]
  note t2 = withRetries_policy [of "\<lambda>i. Resolved 404" RETRY_BACKOFFS_MS, THEN conjunct1,
      unfolded Let_def b]
  show ?thesis
    unfolding a b using t1 t2 c by (simp add: RETRY_BACKOFFS_MS_def)
qed

end
